theory Spec2Isabelle
  imports Main
begin

section \<open>Data model\<close>

text \<open>
  The resolver of \<^verbatim>\<open>resolve.py\<close> talks to the dnspython library. The values it
  reads from a parsed message are kept as the code reads them.

  A resource record (\<^verbatim>\<open>dns.rdata.Rdata\<close>): its numeric type code \<^verbatim>\<open>rdtype\<close>, the
  string \<^verbatim>\<open>str(rdata)\<close>, and the two attributes that the code reads from MX records only
  (\<^verbatim>\<open>preference\<close> and the text of \<^verbatim>\<open>exchange\<close>).
\<close>

record rdata =
  rdtype :: nat
  rd_str :: string
  preference :: nat
  exchange :: string

text \<open>
  A record set (\<^verbatim>\<open>dns.rrset.RRset\<close>): the owner \<^verbatim>\<open>name\<close>, the records that iterating
  over the set yields, in order, and the string \<^verbatim>\<open>str(rrset)\<close>.
\<close>

record rrset =
  name :: string
  items :: "rdata list"
  rrset_str :: string

text \<open>A parsed response (\<^verbatim>\<open>dns.message.Message\<close>) with the two sections the code reads.\<close>

record response =
  answer :: "rrset list"
  additional :: "rrset list"

text \<open>
  The exceptions the library calls can raise. \<open>Timeout\<close> stands for
  \<^verbatim>\<open>dns.exception.Timeout\<close>, the only one the resolver catches.
\<close>

datatype error = Timeout | FormError | BadResponse | UnexpectedSource | NameSyntax | OSError

text \<open>
  The local variable \<^verbatim>\<open>target_name\<close> holds a \<^verbatim>\<open>dns.name.Name\<close> at the first call and
  a \<^verbatim>\<open>str\<close> after the scanning loop has assigned to it.
\<close>

datatype target = Name string | Str string

datatype query = Query string nat

text \<open>
  The observable events of a run, in order: entering \<^verbatim>\<open>recursive_dns_lookup\<close> with its
  three arguments, calling \<^verbatim>\<open>dns.message.make_query\<close>, and calling \<^verbatim>\<open>dns.query.udp\<close>
  for one server.
\<close>

datatype event =
  Call target nat "string list"
| Build target nat
| Send query string

text \<open>
  The library and the network are parameters of the model. \<open>from_text\<close> is
  \<^verbatim>\<open>dns.name.from_text\<close>, which raises on a malformed name. \<open>udp\<close> is
  \<^verbatim>\<open>dns.query.udp\<close> with the three-second deadline: it raises or returns the parsed
  response, and what it does may depend on everything that happened before.
\<close>

record world =
  from_text :: "string \<Rightarrow> error + string"
  udp :: "event list \<Rightarrow> query \<Rightarrow> string \<Rightarrow> error + response"

text \<open>
  \<^verbatim>\<open>dns.message.make_query\<close> takes a name object as it is and converts a string with
  \<^verbatim>\<open>dns.name.from_text\<close>.
\<close>

fun make_query :: "world \<Rightarrow> target \<Rightarrow> nat \<Rightarrow> error + query" where
  "make_query W (Name n) qtype = Inr (Query n qtype)"
| "make_query W (Str s) qtype =
     (case from_text W s of Inl e \<Rightarrow> Inl e | Inr n \<Rightarrow> Inr (Query n qtype))"

definition ROOT_SERVERS :: "string list" where
  "ROOT_SERVERS =
     [''198.41.0.4'', ''199.9.14.201'', ''192.33.4.12'', ''199.7.91.13'',
      ''192.203.230.10'', ''192.5.5.241'', ''192.112.36.4'', ''198.97.190.53'',
      ''192.36.148.17'', ''192.58.128.30'', ''193.0.14.129'', ''199.7.83.42'',
      ''202.12.27.33'']"

section \<open>The delegation resolver\<close>

subsection \<open>Scanning the answer section\<close>

text \<open>
  Lines 117 to 130. The two nested \<^verbatim>\<open>for\<close> loops assign \<^verbatim>\<open>target_name\<close> for every
  record before looking at its type. They end in one of three ways: a record of the
  requested type (\<open>Found\<close>), a CNAME record of another type (\<open>Alias\<close>, with the value
  \<^verbatim>\<open>target_name\<close> has then), or the end of the section (\<open>NoMatch\<close>, with the value
  \<^verbatim>\<open>target_name\<close> is left with).
\<close>

datatype scan = Found | Alias target | NoMatch target

fun scan_rrset :: "nat \<Rightarrow> target \<Rightarrow> rdata list \<Rightarrow> scan" where
  "scan_rrset qtype target_name [] = NoMatch target_name"
| "scan_rrset qtype target_name (response_answer # rest) =
     (let target_name' = Str (butlast (rd_str response_answer)) in
      if rdtype response_answer \<noteq> qtype then
        (if rdtype response_answer = 5 then Alias target_name'
         else scan_rrset qtype target_name' rest)
      else Found)"

fun scan_answer :: "nat \<Rightarrow> target \<Rightarrow> rrset list \<Rightarrow> scan" where
  "scan_answer qtype target_name [] = NoMatch target_name"
| "scan_answer qtype target_name (response_answers # rest) =
     (case scan_rrset qtype target_name (items response_answers) of
        NoMatch target_name' \<Rightarrow> scan_answer qtype target_name' rest
      | Found \<Rightarrow> Found
      | Alias t \<Rightarrow> Alias t)"

subsection \<open>Extracting glue addresses\<close>

text \<open>
  \<^verbatim>\<open>str.split()\<close> without arguments: the maximal runs of characters that are not
  white space. The characters of the ASCII range that Python counts as white space are
  9 to 13, 28 to 31 and 32.
\<close>

definition is_space :: "char \<Rightarrow> bool" where
  "is_space c \<longleftrightarrow>
     (let k = of_char c :: nat in (9 \<le> k \<and> k \<le> 13) \<or> (28 \<le> k \<and> k \<le> 32))"

fun split_from :: "string \<Rightarrow> string \<Rightarrow> string list" where
  "split_from cur [] = (if cur = [] then [] else [cur])"
| "split_from cur (c # cs) =
     (if is_space c then (if cur = [] then split_from [] cs else cur # split_from [] cs)
      else split_from (cur @ [c]) cs)"

definition split :: "string \<Rightarrow> string list" where
  "split s = split_from [] s"

text \<open>
  Lines 144 to 152: one pass over the tokens, appending \<^verbatim>\<open>resp_elements[-1]\<close> for
  every token equal to \<^verbatim>\<open>'A'\<close>. The index is only evaluated inside the loop, where the
  token list is not empty.
\<close>

fun ip_address :: "string list \<Rightarrow> string list \<Rightarrow> string list" where
  "ip_address resp_elements [] = []"
| "ip_address resp_elements (resp_element # rest) =
     (if resp_element \<noteq> ''A'' then ip_address resp_elements rest
      else last resp_elements # ip_address resp_elements rest)"

text \<open>Lines 135 to 153: the addresses of all record sets of the section, concatenated.\<close>

fun ip_addresses :: "rrset list \<Rightarrow> string list" where
  "ip_addresses [] = []"
| "ip_addresses (response_additional # rest) =
     (let resp_elements = split (rrset_str response_additional)
      in ip_address resp_elements resp_elements @ ip_addresses rest)"

subsection \<open>The server loop\<close>

text \<open>
  Lines 107 to 155, the loop \<^verbatim>\<open>for server in root_servers_list\<close>, at the servers that
  are left, with the query built before the loop and the current value of
  \<^verbatim>\<open>target_name\<close>. Every recursive call of the source is a \<^verbatim>\<open>return\<close> of that call,
  so the loop ends in one of four ways: it runs off its end (\<open>Fell\<close>, with the value
  \<^verbatim>\<open>target_name\<close> is left with; the function then returns \<^verbatim>\<open>None\<close>), it returns the
  response (\<open>Answered\<close>), an exception other than the timeout leaves it (\<open>Raise\<close>), or
  it returns what a recursive call with a name and a server list returns (\<open>Recurse\<close>).
  The second component is the trace.
\<close>

datatype ending =
  Fell target
| Answered response
| Raise error
| Recurse target "string list"

fun server_loop ::
  "world \<Rightarrow> query \<Rightarrow> nat \<Rightarrow> target \<Rightarrow> string list \<Rightarrow> event list
     \<Rightarrow> ending \<times> event list" where
  "server_loop W dns_query qtype target_name [] tr = (Fell target_name, tr)"
| "server_loop W dns_query qtype target_name (server # rest) tr =
     (case udp W tr dns_query server of
        Inl e \<Rightarrow>
          (if e = Timeout then
             server_loop W dns_query qtype target_name rest (tr @ [Send dns_query server])
           else (Raise e, tr @ [Send dns_query server]))
      | Inr query_response \<Rightarrow>
          (if answer query_response \<noteq> [] then
             (case scan_answer qtype target_name (answer query_response) of
                Found \<Rightarrow> (Answered query_response, tr @ [Send dns_query server])
              | Alias target_name' \<Rightarrow>
                  (Recurse target_name' ROOT_SERVERS, tr @ [Send dns_query server])
              | NoMatch target_name' \<Rightarrow>
                  server_loop W dns_query qtype target_name' rest
                    (tr @ [Send dns_query server]))
           else if additional query_response \<noteq> [] then
             (Recurse target_name (ip_addresses (additional query_response)),
              tr @ [Send dns_query server])
           else
             server_loop W dns_query qtype target_name rest
               (tr @ [Send dns_query server])))"

text \<open>
  The replies after which the loop goes on to the next server: the timeout (line 113),
  a non-empty answer section in which no record has the requested type or is a CNAME
  (the scan of lines 117 to 130 ends without a \<^verbatim>\<open>return\<close>), and a response whose
  answer and additional sections are both empty (lines 131 to 134).
\<close>

definition falls_through :: "nat \<Rightarrow> error + response \<Rightarrow> bool" where
  "falls_through qtype reply =
     (case reply of
        Inl e \<Rightarrow> e = Timeout
      | Inr query_response \<Rightarrow>
          if answer query_response \<noteq> [] then
            (\<forall>response_answer \<in> set (concat (map items (answer query_response))).
                rdtype response_answer \<noteq> qtype \<and> rdtype response_answer \<noteq> 5)
          else additional query_response = [])"

subsection \<open>The recursion\<close>

text \<open>
  \<^verbatim>\<open>recursive_dns_lookup\<close> returns a response or \<^verbatim>\<open>None\<close> (\<open>Inr\<close>), or raises
  (\<open>Inl\<close>); the second component is the trace of events. The recursion has no bound in
  the source (an alias can point back to itself), so the model is a partial function:
  the value \<open>None\<close> of the outer \<open>option\<close> means that the recursion never comes back.
\<close>

type_synonym outcome = "(error + response option) \<times> event list"

partial_function (option) recursive_dns_lookup ::
  "world \<Rightarrow> target \<Rightarrow> nat \<Rightarrow> string list \<Rightarrow> event list \<Rightarrow> outcome option" where
  "recursive_dns_lookup W target_name qtype root_servers_list tr =
     (if root_servers_list = [] then
        Some (Inr None, tr @ [Call target_name qtype root_servers_list])
      else
        (case make_query W target_name qtype of
           Inl e \<Rightarrow>
             Some (Inl e, tr @ [Call target_name qtype root_servers_list,
                                Build target_name qtype])
         | Inr dns_query \<Rightarrow>
             (case server_loop W dns_query qtype target_name root_servers_list
                     (tr @ [Call target_name qtype root_servers_list,
                            Build target_name qtype]) of
                (Fell target_name', tr') \<Rightarrow> Some (Inr None, tr')
              | (Answered query_response, tr') \<Rightarrow> Some (Inr (Some query_response), tr')
              | (Raise e, tr') \<Rightarrow> Some (Inl e, tr')
              | (Recurse target_name' servers', tr') \<Rightarrow>
                  recursive_dns_lookup W target_name' qtype servers' tr')))"

text \<open>
  What the function does with the way its loop ended: the last four branches of the
  definition above.
\<close>

definition after_loop :: "world \<Rightarrow> nat \<Rightarrow> ending \<times> event list \<Rightarrow> outcome option" where
  "after_loop W qtype p =
     (case p of
        (Fell target_name', tr') \<Rightarrow> Some (Inr None, tr')
      | (Answered query_response, tr') \<Rightarrow> Some (Inr (Some query_response), tr')
      | (Raise e, tr') \<Rightarrow> Some (Inl e, tr')
      | (Recurse target_name' servers', tr') \<Rightarrow>
          recursive_dns_lookup W target_name' qtype servers' tr')"

definition lookup :: "world \<Rightarrow> target \<Rightarrow> nat \<Rightarrow> event list \<Rightarrow> outcome option" where
  "lookup W target_name qtype tr = recursive_dns_lookup W target_name qtype ROOT_SERVERS tr"

text \<open>The queries a trace sent, and the queries it built, in order.\<close>

fun sends :: "event list \<Rightarrow> (query \<times> string) list" where
  "sends [] = []"
| "sends (Send q s # evs) = (q, s) # sends evs"
| "sends (ev # evs) = sends evs"

fun builds :: "event list \<Rightarrow> (target \<times> nat) list" where
  "builds [] = []"
| "builds (Build t q # evs) = (t, q) # builds evs"
| "builds (ev # evs) = builds evs"

section \<open>The result collector and the command-line loop\<close>

text \<open>
  The dictionaries that \<^verbatim>\<open>collect_results\<close> appends: \<^verbatim>\<open>{"name": answer, "alias": name}\<close>
  for the CNAME list (the record object itself and the string the user typed),
  \<^verbatim>\<open>{"name": a_name, "address": str(answer)}\<close> for the A and AAAA lists, and
  \<^verbatim>\<open>{"name": mx_name, "preference": ..., "exchange": ...}\<close> for the MX list.
\<close>

datatype entry =
  CnameEntry rdata string
| AddressEntry string string
| MxEntry string nat string

type_synonym results = "string \<rightharpoonup> entry list"

text \<open>Lines 47 to 51: every record of every answer record set is appended.\<close>

definition cnames :: "string \<Rightarrow> response option \<Rightarrow> entry list" where
  "cnames nm response =
     (case response of
        None \<Rightarrow> []
      | Some r \<Rightarrow>
          concat (map (\<lambda>answers. map (\<lambda>answer. CnameEntry answer nm) (items answers))
                    (answer r)))"

text \<open>Lines 55 to 62, 66 to 73 and 77 to 85: the records whose type code is 1, 28, 15.\<close>

definition arecords :: "response option \<Rightarrow> entry list" where
  "arecords response =
     (case response of
        None \<Rightarrow> []
      | Some r \<Rightarrow>
          concat (map (\<lambda>answers.
                    map (\<lambda>answer. AddressEntry (name answers) (rd_str answer))
                      (filter (\<lambda>answer. rdtype answer = 1) (items answers)))
                    (answer r)))"

definition aaaarecords :: "response option \<Rightarrow> entry list" where
  "aaaarecords response =
     (case response of
        None \<Rightarrow> []
      | Some r \<Rightarrow>
          concat (map (\<lambda>answers.
                    map (\<lambda>answer. AddressEntry (name answers) (rd_str answer))
                      (filter (\<lambda>answer. rdtype answer = 28) (items answers)))
                    (answer r)))"

definition mxrecords :: "response option \<Rightarrow> entry list" where
  "mxrecords response =
     (case response of
        None \<Rightarrow> []
      | Some r \<Rightarrow>
          concat (map (\<lambda>answers.
                    map (\<lambda>answer. MxEntry (name answers) (preference answer) (exchange answer))
                      (filter (\<lambda>answer. rdtype answer = 15) (items answers)))
                    (answer r)))"

text \<open>
  Sequencing of two steps that may raise or never come back: the second runs on the
  value and the trace of the first.
\<close>

definition and_then ::
  "((error + 'a) \<times> event list) option
     \<Rightarrow> ('a \<Rightarrow> event list \<Rightarrow> ((error + 'b) \<times> event list) option)
     \<Rightarrow> ((error + 'b) \<times> event list) option" where
  "and_then m f =
     (case m of
        None \<Rightarrow> None
      | Some (Inl e, tr) \<Rightarrow> Some (Inl e, tr)
      | Some (Inr x, tr) \<Rightarrow> f x tr)"

text \<open>
  \<^verbatim>\<open>collect_results\<close>: the name is parsed, the four lookups run in the order CNAME (5),
  A (1), AAAA (28), MX (15), and the four lists are stored under their keys.
\<close>

definition collect_results ::
  "world \<Rightarrow> string \<Rightarrow> event list \<Rightarrow> ((error + results) \<times> event list) option" where
  "collect_results W nm tr =
     (case from_text W nm of
        Inl e \<Rightarrow> Some (Inl e, tr)
      | Inr target_name \<Rightarrow>
          and_then (lookup W (Name target_name) 5 tr) (\<lambda>response1 tr1.
          and_then (lookup W (Name target_name) 1 tr1) (\<lambda>response2 tr2.
          and_then (lookup W (Name target_name) 28 tr2) (\<lambda>response3 tr3.
          and_then (lookup W (Name target_name) 15 tr3) (\<lambda>response4 tr4.
            Some (Inr (Map.empty(''CNAME'' \<mapsto> cnames nm response1,
                                 ''A'' \<mapsto> arecords response2,
                                 ''AAAA'' \<mapsto> aaaarecords response3,
                                 ''MX'' \<mapsto> mxrecords response4)), tr4))))))"

text \<open>
  The state of the process in \<^verbatim>\<open>main\<close>: the global dictionary \<^verbatim>\<open>CACHE_SYSTEM\<close>, the
  trace of events, and the results handed to \<^verbatim>\<open>print_results\<close>, in order.
\<close>

record state =
  CACHE_SYSTEM :: "string \<rightharpoonup> results"
  trace :: "event list"
  printed :: "results list"

text \<open>
  Lines 197 to 207, the loop over the names of the command line. An exception of
  \<^verbatim>\<open>collect_results\<close> is not caught and ends the program (\<open>Some e\<close>).
\<close>

fun main_loop :: "world \<Rightarrow> string list \<Rightarrow> state \<Rightarrow> (error option \<times> state) option" where
  "main_loop W [] st = Some (None, st)"
| "main_loop W (a_domain_name # rest) st =
     (case CACHE_SYSTEM st a_domain_name of
        Some res \<Rightarrow> main_loop W rest (st\<lparr>printed := printed st @ [res]\<rparr>)
      | None \<Rightarrow>
          (case collect_results W a_domain_name (trace st) of
             None \<Rightarrow> None
           | Some (Inl e, tr') \<Rightarrow> Some (Some e, st\<lparr>trace := tr'\<rparr>)
           | Some (Inr res, tr') \<Rightarrow>
               main_loop W rest
                 (st\<lparr>CACHE_SYSTEM := (CACHE_SYSTEM st)(a_domain_name \<mapsto> res),
                     trace := tr',
                     printed := printed st @ [res]\<rparr>)))"

section \<open>Example worlds\<close>

text \<open>
  Concrete records, responses and worlds, on which the theorems below are evaluated.
  \<open>dotted\<close> parses a name by making it absolute, as \<^verbatim>\<open>dns.name.from_text\<close> does for
  a well-formed name.
\<close>

definition rd :: "nat \<Rightarrow> string \<Rightarrow> rdata" where
  "rd ty txt = \<lparr>rdtype = ty, rd_str = txt, preference = 0, exchange = []\<rparr>"

definition dotted :: "string \<Rightarrow> error + string" where
  "dotted s = Inr (if s \<noteq> [] \<and> last s = CHR ''.'' then s else s @ ''.'')"

definition a_answer :: response where
  "a_answer =
     \<lparr>answer = [\<lparr>name = ''example.com.'', items = [rd 1 ''93.184.216.34''],
                 rrset_str = ''example.com. 300 IN A 93.184.216.34''\<rparr>],
      additional = []\<rparr>"

definition cname_answer :: response where
  "cname_answer =
     \<lparr>answer = [\<lparr>name = ''www.example.com.'', items = [rd 5 ''example.net.''],
                 rrset_str = ''www.example.com. 300 IN CNAME example.net.''\<rparr>],
      additional = []\<rparr>"

definition glue_referral :: response where
  "glue_referral =
     \<lparr>answer = [],
      additional = [\<lparr>name = ''a.gtld-servers.net.'', items = [rd 1 ''192.5.6.30''],
                     rrset_str = ''a.gtld-servers.net. 172800 IN A 192.5.6.30''\<rparr>]\<rparr>"

definition aaaa_referral :: response where
  "aaaa_referral =
     \<lparr>answer = [],
      additional = [\<lparr>name = ''a.gtld-servers.net.'', items = [rd 28 ''2001:503:a83e::2:30''],
                     rrset_str = ''a.gtld-servers.net. 172800 IN AAAA 2001:503:a83e::2:30''\<rparr>]\<rparr>"

text \<open>No server ever answers.\<close>

definition silent :: world where
  "silent = \<lparr>from_text = dotted, udp = (\<lambda>tr q s. Inl Timeout)\<rparr>"

text \<open>
  The first server refers to name servers for which it gives IPv6 glue only; the second
  one would answer.
\<close>

definition world_empty_glue :: world where
  "world_empty_glue =
     \<lparr>from_text = dotted,
      udp = (\<lambda>tr q s. if s = ''192.0.2.1'' then Inr aaaa_referral else Inr a_answer)\<rparr>"

text \<open>The datagram of the first server does not parse; the second one would answer.\<close>

definition world_malformed :: world where
  "world_malformed =
     \<lparr>from_text = dotted,
      udp = (\<lambda>tr q s. if s = ''192.0.2.1'' then Inl FormError else Inr a_answer)\<rparr>"

text \<open>
  The first server answers every query with the A record of the name, the second one
  refers to a name server with IPv4 glue, and nobody else answers.
\<close>

definition world_clobber :: world where
  "world_clobber =
     \<lparr>from_text = dotted,
      udp = (\<lambda>tr q s. if s = ''192.0.2.1'' then Inr a_answer
                       else if s = ''192.0.2.2'' then Inr glue_referral
                       else Inl Timeout)\<rparr>"

text \<open>
  Every server knows that \<^verbatim>\<open>www.example.com\<close> is an alias of \<^verbatim>\<open>example.net\<close> and
  knows the address of the latter.
\<close>

definition world_alias :: world where
  "world_alias =
     \<lparr>from_text = dotted,
      udp = (\<lambda>tr q s. case q of Query n ty \<Rightarrow>
               if n = ''www.example.com.'' then Inr cname_answer
               else if n = ''example.net.'' then Inr a_answer
               else Inl Timeout)\<rparr>"

text \<open>The first server does not answer in time; the second one answers.\<close>

definition world_first_silent :: world where
  "world_first_silent =
     \<lparr>from_text = dotted,
      udp = (\<lambda>tr q s. if s = ''192.0.2.1'' then Inl Timeout else Inr a_answer)\<rparr>"

text \<open>
  Every server answers a CNAME query with the alias and the address record of its
  target in one answer section, and answers no other query.
\<close>

definition cname_with_address :: response where
  "cname_with_address =
     \<lparr>answer = [\<lparr>name = ''www.example.com.'', items = [rd 5 ''example.net.''],
                 rrset_str = ''www.example.com. 300 IN CNAME example.net.''\<rparr>,
                \<lparr>name = ''example.net.'', items = [rd 1 ''93.184.216.34''],
                 rrset_str = ''example.net. 300 IN A 93.184.216.34''\<rparr>],
      additional = []\<rparr>"

definition world_cname_extra :: world where
  "world_cname_extra =
     \<lparr>from_text = dotted,
      udp = (\<lambda>tr q s. case q of Query n ty \<Rightarrow>
               if ty = 5 then Inr cname_with_address else Inl Timeout)\<rparr>"

text \<open>
  The trace of one lookup from the root servers when nobody answers, and of the four
  lookups of \<open>collect_results\<close>.
\<close>

definition silent_trace :: "string \<Rightarrow> nat \<Rightarrow> event list" where
  "silent_trace n q =
     [Call (Name n) q ROOT_SERVERS, Build (Name n) q] @ map (Send (Query n q)) ROOT_SERVERS"

definition silent_collect_trace :: "string \<Rightarrow> event list" where
  "silent_collect_trace n =
     silent_trace n 5 @ silent_trace n 1 @ silent_trace n 28 @ silent_trace n 15"

definition empty_results :: results where
  "empty_results = Map.empty(''CNAME'' \<mapsto> [], ''A'' \<mapsto> [], ''AAAA'' \<mapsto> [], ''MX'' \<mapsto> [])"

text \<open>
  Record sets of an additional section with the text dnspython prints for them (one
  line per record: owner, TTL, class, type, record data): two address records of one
  name server, an IPv6 address record, and a signature that covers an address record.
\<close>

definition two_a_rrset :: rrset where
  "two_a_rrset =
     \<lparr>name = ''ns1.example.com.'',
      items = [rd 1 ''192.0.2.1'', rd 1 ''192.0.2.2''],
      rrset_str = ''ns1.example.com. 3600 IN A 192.0.2.1'' @ [CHR 0x0A] @
                  ''ns1.example.com. 3600 IN A 192.0.2.2''\<rparr>"

definition aaaa_rrset :: rrset where
  "aaaa_rrset =
     \<lparr>name = ''a.gtld-servers.net.'', items = [rd 28 ''2001:503:a83e::2:30''],
      rrset_str = ''a.gtld-servers.net. 172800 IN AAAA 2001:503:a83e::2:30''\<rparr>"

definition rrsig_rrset :: rrset where
  "rrsig_rrset =
     \<lparr>name = ''example.com.'',
      items = [rd 46 ''A 8 2 3600 20300101000000 20200101000000 12345 example.com. c2lnbmF0dXJl''],
      rrset_str = ''example.com. 3600 IN RRSIG A 8 2 3600 20300101000000 20200101000000 12345 example.com. c2lnbmF0dXJl''\<rparr>"

text \<open>The state of a fresh process.\<close>

definition initial_state :: state where
  "initial_state = \<lparr>CACHE_SYSTEM = Map.empty, trace = [], printed = []\<rparr>"

text \<open>
  A parser that rejects the name \<^verbatim>\<open>a..b\<close>, which has an empty label, and a world in
  which the datagram of every server is malformed.
\<close>

definition world_strict :: world where
  "world_strict =
     \<lparr>from_text = (\<lambda>s. if s = ''a..b'' then Inl NameSyntax else dotted s),
      udp = (\<lambda>tr q s. Inl Timeout)\<rparr>"

definition world_garbled :: world where
  "world_garbled = \<lparr>from_text = dotted, udp = (\<lambda>tr q s. Inl FormError)\<rparr>"

text \<open>
  The trace and the result of \<open>collect_results\<close> for a name in the world
  \<open>world_cname_extra\<close>, and the state of the process after it has looked up
  \<^verbatim>\<open>www.example.com\<close> and \<^verbatim>\<open>example.org\<close>.
\<close>

definition cname_extra_trace :: "string \<Rightarrow> event list" where
  "cname_extra_trace n =
     [Call (Name n) 5 ROOT_SERVERS, Build (Name n) 5, Send (Query n 5) ''198.41.0.4''] @
     silent_trace n 1 @ silent_trace n 28 @ silent_trace n 15"

definition cname_extra_results :: "string \<Rightarrow> results" where
  "cname_extra_results nm =
     Map.empty(''CNAME'' \<mapsto> [CnameEntry (rd 5 ''example.net.'') nm,
                              CnameEntry (rd 1 ''93.184.216.34'') nm],
               ''A'' \<mapsto> [], ''AAAA'' \<mapsto> [], ''MX'' \<mapsto> [])"

definition cname_extra_state :: state where
  "cname_extra_state =
     \<lparr>CACHE_SYSTEM = Map.empty(''www.example.com'' \<mapsto> cname_extra_results ''www.example.com'',
                                ''example.org'' \<mapsto> cname_extra_results ''example.org''),
      trace = cname_extra_trace ''www.example.com.'' @ cname_extra_trace ''example.org.'',
      printed = [cname_extra_results ''www.example.com'', cname_extra_results ''example.org'']\<rparr>"

section \<open>Equations of the resolver\<close>

lemma sends_append: "sends (xs @ ys) = sends xs @ sends ys"
  by (induction xs rule: sends.induct) simp_all

lemma builds_append: "builds (xs @ ys) = builds xs @ builds ys"
  by (induction xs rule: builds.induct) simp_all

text \<open>One unfolding of the recursion, for each way the server loop can end.\<close>

lemma recursive_dns_lookup_Nil:
  "recursive_dns_lookup W target_name qtype [] tr =
     Some (Inr None, tr @ [Call target_name qtype []])"
  by (subst recursive_dns_lookup.simps) simp

lemma recursive_dns_lookup_raises:
  "servers \<noteq> [] \<Longrightarrow> make_query W t q = Inl e \<Longrightarrow>
   recursive_dns_lookup W t q servers tr = Some (Inl e, tr @ [Call t q servers, Build t q])"
  by (subst recursive_dns_lookup.simps) simp

lemma recursive_dns_lookup_Fell:
  "servers \<noteq> [] \<Longrightarrow> make_query W t q = Inr dq \<Longrightarrow>
   server_loop W dq q t servers (tr @ [Call t q servers, Build t q]) = (Fell t', tr') \<Longrightarrow>
   recursive_dns_lookup W t q servers tr = Some (Inr None, tr')"
  by (subst recursive_dns_lookup.simps) simp

lemma recursive_dns_lookup_Answered:
  "servers \<noteq> [] \<Longrightarrow> make_query W t q = Inr dq \<Longrightarrow>
   server_loop W dq q t servers (tr @ [Call t q servers, Build t q]) = (Answered r, tr') \<Longrightarrow>
   recursive_dns_lookup W t q servers tr = Some (Inr (Some r), tr')"
  by (subst recursive_dns_lookup.simps) simp

lemma recursive_dns_lookup_Raise:
  "servers \<noteq> [] \<Longrightarrow> make_query W t q = Inr dq \<Longrightarrow>
   server_loop W dq q t servers (tr @ [Call t q servers, Build t q]) = (Raise e, tr') \<Longrightarrow>
   recursive_dns_lookup W t q servers tr = Some (Inl e, tr')"
  by (subst recursive_dns_lookup.simps) simp

lemma recursive_dns_lookup_Recurse:
  "servers \<noteq> [] \<Longrightarrow> make_query W t q = Inr dq \<Longrightarrow>
   server_loop W dq q t servers (tr @ [Call t q servers, Build t q]) = (Recurse t' ss, tr') \<Longrightarrow>
   recursive_dns_lookup W t q servers tr = recursive_dns_lookup W t' q ss tr'"
  by (subst recursive_dns_lookup.simps) simp

text \<open>The scan of a section is the scan of its records, one record set after the other.\<close>

lemma scan_rrset_append:
  "scan_rrset q t (xs @ ys) =
     (case scan_rrset q t xs of NoMatch t' \<Rightarrow> scan_rrset q t' ys
      | Found \<Rightarrow> Found | Alias a \<Rightarrow> Alias a)"
  by (induction xs arbitrary: t) (simp_all add: Let_def)

lemma scan_answer_concat:
  "scan_answer q t rss = scan_rrset q t (concat (map items rss))"
  by (induction rss arbitrary: t) (simp_all add: scan_rrset_append split: scan.splits)

lemma scan_rrset_no_match:
  "\<forall>rd \<in> set recs. rdtype rd \<noteq> q \<and> rdtype rd \<noteq> 5 \<Longrightarrow>
   scan_rrset q t recs = NoMatch (if recs = [] then t else Str (butlast (rd_str (last recs))))"
  by (induction recs arbitrary: t) (simp_all add: Let_def)

lemma scan_rrset_alias:
  assumes "\<forall>rd \<in> set before. rdtype rd \<noteq> q \<and> rdtype rd \<noteq> 5"
    and "rdtype c = 5" and "q \<noteq> 5"
  shows "scan_rrset q t (before @ c # after) = Alias (Str (butlast (rd_str c)))"
  using assms by (simp add: scan_rrset_append scan_rrset_no_match Let_def)

lemma scan_rrset_found:
  assumes "\<forall>rd \<in> set before. rdtype rd \<noteq> q \<and> rdtype rd \<noteq> 5"
    and "rdtype c = q"
  shows "scan_rrset q t (before @ c # after) = Found"
  using assms by (simp add: scan_rrset_append scan_rrset_no_match Let_def)

text \<open>The loop over a list of servers is the loop over a first part and then the rest.\<close>

lemma server_loop_append:
  "server_loop W dq q t (pre @ rest) tr =
     (case server_loop W dq q t pre tr of
        (Fell t', tr') \<Rightarrow> server_loop W dq q t' rest tr'
      | (Answered r, tr') \<Rightarrow> (Answered r, tr')
      | (Raise e, tr') \<Rightarrow> (Raise e, tr')
      | (Recurse t' ss, tr') \<Rightarrow> (Recurse t' ss, tr'))"
  by (induction pre arbitrary: t tr) (simp_all split: sum.splits scan.splits)

text \<open>
  The loop sends the query to a first part of the list, in order, and to nothing else;
  to the whole list when it runs off its end, and to one server at least otherwise.
\<close>

lemma server_loop_trace:
  "server_loop W dq q t servers tr = (e, tr') \<Longrightarrow>
   \<exists>k \<le> length servers. tr' = tr @ map (Send dq) (take k servers)
      \<and> ((\<exists>t'. e = Fell t') \<longrightarrow> k = length servers)
      \<and> ((\<forall>t'. e \<noteq> Fell t') \<longrightarrow> 0 < k)"
proof (induction servers arbitrary: t tr)
  case Nil
  then show ?case by auto
next
  case (Cons s rest)
  let ?tr1 = "tr @ [Send dq s]"
  have later: "\<And>t1. server_loop W dq q t1 rest ?tr1 = (e, tr') \<Longrightarrow> ?case"
  proof -
    fix t1
    assume "server_loop W dq q t1 rest ?tr1 = (e, tr')"
    from Cons.IH [OF this] obtain k where k: "k \<le> length rest"
      "tr' = ?tr1 @ map (Send dq) (take k rest)"
      "(\<exists>t'. e = Fell t') \<longrightarrow> k = length rest" by blast
    show ?case
      by (rule exI [of _ "Suc k"]) (use k in simp)
  qed
  show ?case
  proof (cases "udp W tr dq s")
    case (Inl err)
    show ?thesis
    proof (cases "err = Timeout")
      case True
      with Inl Cons.prems show ?thesis by (intro later [of t]) simp
    next
      case False
      with Inl Cons.prems have "e = Raise err" "tr' = ?tr1" by auto
      then show ?thesis by (intro exI [of _ 1]) simp
    qed
  next
    case (Inr r)
    show ?thesis
    proof (cases "answer r \<noteq> []")
      case True
      show ?thesis
      proof (cases "scan_answer q t (answer r)")
        case Found
        with Inr True Cons.prems have "e = Answered r" "tr' = ?tr1" by auto
        then show ?thesis by (intro exI [of _ 1]) simp
      next
        case (Alias a)
        with Inr True Cons.prems have "e = Recurse a ROOT_SERVERS" "tr' = ?tr1" by auto
        then show ?thesis by (intro exI [of _ 1]) simp
      next
        case (NoMatch t1)
        with Inr True Cons.prems show ?thesis by (intro later [of t1]) simp
      qed
    next
      case False
      show ?thesis
      proof (cases "additional r \<noteq> []")
        case True
        with Inr False Cons.prems
        have "e = Recurse t (ip_addresses (additional r))" "tr' = ?tr1" by auto
        then show ?thesis by (intro exI [of _ 1]) simp
      next
        case no: False
        with Inr False Cons.prems show ?thesis by (intro later [of t]) simp
      qed
    qed
  qed
qed

lemma recursive_dns_lookup_unfold:
  "servers \<noteq> [] \<Longrightarrow> make_query W t q = Inr dq \<Longrightarrow>
   recursive_dns_lookup W t q servers tr =
     after_loop W q (server_loop W dq q t servers (tr @ [Call t q servers, Build t q]))"
  by (subst recursive_dns_lookup.simps) (simp add: after_loop_def)

text \<open>The single steps of the loop that the claims are about.\<close>

lemma server_loop_alias:
  assumes "udp W tr dq s = Inr r"
    and "concat (map items (answer r)) = before @ c # after"
    and "\<forall>rd \<in> set before. rdtype rd \<noteq> q \<and> rdtype rd \<noteq> 5"
    and "rdtype c = 5" and "q \<noteq> 5"
  shows "server_loop W dq q t (s # rest) tr =
           (Recurse (Str (butlast (rd_str c))) ROOT_SERVERS, tr @ [Send dq s])"
proof -
  from assms(2) have ne: "answer r \<noteq> []" by auto
  have "scan_answer q t (answer r) = Alias (Str (butlast (rd_str c)))"
    using assms by (simp add: scan_answer_concat scan_rrset_alias)
  with assms(1) ne show ?thesis by simp
qed

lemma server_loop_clobber:
  assumes "udp W tr dq s1 = Inr r1"
    and "recs = concat (map items (answer r1))" and "recs \<noteq> []"
    and "\<forall>rd \<in> set recs. rdtype rd \<noteq> q \<and> rdtype rd \<noteq> 5"
  shows "server_loop W dq q t (s1 # rest) tr =
           server_loop W dq q (Str (butlast (rd_str (last recs)))) rest (tr @ [Send dq s1])"
proof -
  from assms(2,3) have ne: "answer r1 \<noteq> []" by auto
  have "scan_rrset q t recs = NoMatch (Str (butlast (rd_str (last recs))))"
    using scan_rrset_no_match [OF assms(4)] assms(3) by simp
  then have "scan_answer q t (answer r1) = NoMatch (Str (butlast (rd_str (last recs))))"
    unfolding scan_answer_concat assms(2) .
  with assms(1) ne show ?thesis by simp
qed

lemma server_loop_referral:
  assumes "udp W tr dq s = Inr r" and "answer r = []" and "additional r \<noteq> []"
  shows "server_loop W dq q t (s # rest) tr =
           (Recurse t (ip_addresses (additional r)), tr @ [Send dq s])"
  using assms by simp

lemma server_loop_all_timeout:
  "(\<And>tr s. udp W tr dq s = Inl Timeout) \<Longrightarrow>
   server_loop W dq q t servers tr = (Fell t, tr @ map (Send dq) servers)"
  by (induction servers arbitrary: tr) simp_all

lemma ROOT_SERVERS_not_Nil: "ROOT_SERVERS \<noteq> []"
  by (simp add: ROOT_SERVERS_def)

lemma lookup_all_timeout:
  assumes "\<And>tr s. udp W tr (Query n q) s = Inl Timeout"
  shows "lookup W (Name n) q tr = Some (Inr None, tr @ silent_trace n q)"
  unfolding lookup_def silent_trace_def
  by (rule recursive_dns_lookup_Fell [where dq = "Query n q" and t' = "Name n"])
     (simp_all add: ROOT_SERVERS_not_Nil server_loop_all_timeout [OF assms])

lemma sends_map_Send: "sends (map (Send dq) servers) = map (Pair dq) servers"
  by (induction servers) simp_all

lemma sends_silent_trace: "sends (silent_trace n q) = map (Pair (Query n q)) ROOT_SERVERS"
  by (simp add: silent_trace_def sends_map_Send)

section \<open>Glue extraction\<close>

lemma ip_address_replicate:
  "ip_address resp_elements xs = replicate (count_list xs ''A'') (last resp_elements)"
  by (induction xs) simp_all

lemma ip_addresses_concat:
  "ip_addresses additional_section =
     concat (map (\<lambda>rs. replicate (count_list (split (rrset_str rs)) ''A'')
                          (last (split (rrset_str rs)))) additional_section)"
  by (induction additional_section) (simp_all add: Let_def ip_address_replicate)

lemma ip_addresses_single:
  "ip_addresses [rs] =
     replicate (count_list (split (rrset_str rs)) ''A'') (last (split (rrset_str rs)))"
  by (simp add: ip_addresses_concat)

text \<open>
  The tokens of a record set whose text has, for every record, the owner, the TTL, the
  class, the type and one token of record data.
\<close>

lemma count_list_rr_tokens:
  assumes "owner \<noteq> x" "ttl \<noteq> x" "cls \<noteq> x" "\<forall>d \<in> set rdatas. d \<noteq> x"
  shows "count_list (concat (map (\<lambda>d. [owner, ttl, cls, ty, d]) rdatas)) x =
           (if ty = x then length rdatas else 0)"
  using assms by (induction rdatas) auto

lemma last_rr_tokens:
  "rdatas \<noteq> [] \<Longrightarrow>
   last (concat (map (\<lambda>d. [owner, ttl, cls, ty, d]) rdatas)) = last rdatas"
  by (induction rdatas) simp_all

lemma glue_of_rr_tokens:
  assumes "owner \<noteq> ''A''" "ttl \<noteq> ''A''" "cls \<noteq> ''A''"
    and "\<forall>d \<in> set rdatas. d \<noteq> ''A''" and "rdatas \<noteq> []"
    and "split (rrset_str rs) = concat (map (\<lambda>d. [owner, ttl, cls, ty, d]) rdatas)"
  shows "ip_addresses [rs] = (if ty = ''A'' then replicate (length rdatas) (last rdatas) else [])"
proof -
  have cnt: "count_list (split (rrset_str rs)) ''A'' = (if ty = ''A'' then length rdatas else 0)"
    unfolding assms(6) using assms(1-4) by (intro count_list_rr_tokens) simp_all
  show ?thesis
    unfolding ip_addresses_single cnt
    by (simp add: assms(6) last_rr_tokens [OF assms(5)])
qed

lemma glue_of_A_token:
  assumes "''A'' \<in> set (split (rrset_str rs))"
  shows "ip_addresses [rs] \<noteq> [] \<and> set (ip_addresses [rs]) = {last (split (rrset_str rs))}"
proof -
  from assms have "count_list (split (rrset_str rs)) ''A'' \<noteq> 0"
    by (simp add: count_list_0_iff)
  then have "0 < count_list (split (rrset_str rs)) ''A''"
    by simp
  then show ?thesis unfolding ip_addresses_single by simp
qed

lemma split_two_a:
  "split (rrset_str two_a_rrset) =
     [''ns1.example.com.'', ''3600'', ''IN'', ''A'', ''192.0.2.1'',
      ''ns1.example.com.'', ''3600'', ''IN'', ''A'', ''192.0.2.2'']"
  by (simp add: two_a_rrset_def split_def is_space_def)

lemma split_aaaa:
  "split (rrset_str aaaa_rrset) =
     [''a.gtld-servers.net.'', ''172800'', ''IN'', ''AAAA'', ''2001:503:a83e::2:30'']"
  by (simp add: aaaa_rrset_def split_def is_space_def)

lemma split_rrsig:
  "split (rrset_str rrsig_rrset) =
     [''example.com.'', ''3600'', ''IN'', ''RRSIG'', ''A'', ''8'', ''2'', ''3600'',
      ''20300101000000'', ''20200101000000'', ''12345'', ''example.com.'', ''c2lnbmF0dXJl'']"
  by (simp add: rrsig_rrset_def split_def is_space_def)

lemma glue_of_aaaa_referral: "ip_addresses (additional aaaa_referral) = []"
  by (simp add: aaaa_referral_def split_def is_space_def)

lemma glue_of_glue_referral: "ip_addresses (additional glue_referral) = [''192.5.6.30'']"
  by (simp add: glue_referral_def split_def is_space_def)

section \<open>Equations of the collector and of the command-line loop\<close>

lemma and_then_Inr: "and_then (Some (Inr x, tr)) f = f x tr"
  by (simp add: and_then_def)

lemma collect_results_returns:
  assumes "from_text W nm = Inr n"
    and "lookup W (Name n) 5 tr = Some (Inr r1, tr1)"
    and "lookup W (Name n) 1 tr1 = Some (Inr r2, tr2)"
    and "lookup W (Name n) 28 tr2 = Some (Inr r3, tr3)"
    and "lookup W (Name n) 15 tr3 = Some (Inr r4, tr4)"
  shows "collect_results W nm tr =
     Some (Inr (Map.empty(''CNAME'' \<mapsto> cnames nm r1, ''A'' \<mapsto> arecords r2,
                          ''AAAA'' \<mapsto> aaaarecords r3, ''MX'' \<mapsto> mxrecords r4)), tr4)"
  using assms by (simp add: collect_results_def and_then_Inr)

lemma collect_results_keys:
  assumes "collect_results W nm tr = Some (Inr full_response, tr')"
  shows "dom full_response = {''CNAME'', ''A'', ''AAAA'', ''MX''}"
  using assms
  by (auto simp: collect_results_def and_then_def
           split: sum.splits option.splits prod.splits if_splits)

lemma reshape_None:
  "cnames nm None = []" "arecords None = []" "aaaarecords None = []" "mxrecords None = []"
  by (simp_all add: cnames_def arecords_def aaaarecords_def mxrecords_def)

text \<open>The four lookups of \<open>collect_results\<close> when nobody answers, from any trace.\<close>

lemma collect_results_silent:
  "collect_results silent ''example.com'' tr =
     Some (Inr empty_results, tr @ silent_collect_trace ''example.com.'')"
proof -
  have udp: "\<And>tr q s. udp silent tr q s = Inl Timeout" by (simp add: silent_def)
  have name: "from_text silent ''example.com'' = Inr ''example.com.''"
    by (simp add: silent_def dotted_def)
  have "collect_results silent ''example.com'' tr =
     Some (Inr (Map.empty(''CNAME'' \<mapsto> cnames ''example.com'' None, ''A'' \<mapsto> arecords None,
                          ''AAAA'' \<mapsto> aaaarecords None, ''MX'' \<mapsto> mxrecords None)),
           (((tr @ silent_trace ''example.com.'' 5) @ silent_trace ''example.com.'' 1) @
             silent_trace ''example.com.'' 28) @ silent_trace ''example.com.'' 15)"
    by (rule collect_results_returns [OF name]) (rule lookup_all_timeout [OF udp])+
  then show ?thesis
    by (simp add: reshape_None empty_results_def silent_collect_trace_def)
qed

lemma main_loop_append:
  "main_loop W (xs @ ys) st =
     (case main_loop W xs st of
        None \<Rightarrow> None
      | Some (None, st') \<Rightarrow> main_loop W ys st'
      | Some (Some e, st') \<Rightarrow> Some (Some e, st'))"
  by (induction xs arbitrary: st) (simp_all split: option.splits sum.splits prod.splits)

text \<open>
  The loop only appends to what it printed, and never changes or removes an entry of
  the cache.
\<close>

lemma main_loop_keeps:
  "main_loop W names st = Some (r, st') \<Longrightarrow>
   (\<exists>more. printed st' = printed st @ more) \<and>
   (\<forall>a res. CACHE_SYSTEM st a = Some res \<longrightarrow> CACHE_SYSTEM st' a = Some res)"
proof (induction names arbitrary: st)
  case Nil
  then show ?case by simp
next
  case (Cons b names)
  show ?case
  proof (cases "CACHE_SYSTEM st b")
    case (Some res)
    with Cons.prems have "main_loop W names (st\<lparr>printed := printed st @ [res]\<rparr>) = Some (r, st')"
      by simp
    from Cons.IH [OF this] show ?thesis by auto
  next
    case None
    show ?thesis
    proof (cases "collect_results W b (trace st)")
      case none: None
      with None Cons.prems show ?thesis by simp
    next
      case (Some p)
      obtain v tr' where p: "p = (v, tr')" by (cases p)
      show ?thesis
      proof (cases v)
        case (Inl e)
        with None Some p Cons.prems show ?thesis by auto
      next
        case (Inr res)
        with None Some p Cons.prems
        have "main_loop W names
                (st\<lparr>CACHE_SYSTEM := (CACHE_SYSTEM st)(b \<mapsto> res), trace := tr',
                    printed := printed st @ [res]\<rparr>) = Some (r, st')"
          by simp
        from Cons.IH [OF this]
        have ih: "\<exists>more. printed st' = printed st @ [res] @ more"
          "\<And>a r. ((CACHE_SYSTEM st)(b \<mapsto> res)) a = Some r \<Longrightarrow> CACHE_SYSTEM st' a = Some r"
          by auto
        have "\<And>a r. CACHE_SYSTEM st a = Some r \<Longrightarrow> ((CACHE_SYSTEM st)(b \<mapsto> res)) a = Some r"
          using None by auto
        with ih show ?thesis by blast
      qed
    qed
  qed
qed

text \<open>After a name has been looked up, its result is in the cache and was printed.\<close>

lemma main_loop_first:
  assumes "main_loop W (a # names) st = Some (None, st1)"
  shows "\<exists>res. CACHE_SYSTEM st1 a = Some res \<and> printed st1 ! length (printed st) = res"
proof -
  have "\<exists>res st0. main_loop W names st0 = Some (None, st1) \<and> CACHE_SYSTEM st0 a = Some res
          \<and> printed st0 = printed st @ [res]"
  proof (cases "CACHE_SYSTEM st a")
    case (Some res)
    with assms show ?thesis
      by (intro exI [of _ res] exI [of _ "st\<lparr>printed := printed st @ [res]\<rparr>"]) simp
  next
    case None
    with assms obtain res tr' where c: "collect_results W a (trace st) = Some (Inr res, tr')"
      by (auto split: option.splits sum.splits prod.splits)
    with None assms show ?thesis
      by (intro exI [of _ res]
            exI [of _ "st\<lparr>CACHE_SYSTEM := (CACHE_SYSTEM st)(a \<mapsto> res), trace := tr',
                         printed := printed st @ [res]\<rparr>"]) simp
  qed
  then obtain res st0 where st0: "main_loop W names st0 = Some (None, st1)"
    "CACHE_SYSTEM st0 a = Some res" "printed st0 = printed st @ [res]" by blast
  from main_loop_keeps [OF st0(1)] st0(2,3)
  obtain more where "printed st1 = printed st @ res # more" "CACHE_SYSTEM st1 a = Some res"
    by auto
  then show ?thesis by (simp add: nth_append)
qed

section \<open>What the loop did, read off from the replies\<close>

lemma scan_rrset_Alias_cases:
  "scan_rrset q t recs = Alias a \<Longrightarrow>
   q \<noteq> 5 \<and> (\<exists>before c after. recs = before @ c # after \<and>
      (\<forall>rd \<in> set before. rdtype rd \<noteq> q \<and> rdtype rd \<noteq> 5) \<and> rdtype c = 5 \<and>
      a = Str (butlast (rd_str c)))"
proof (induction recs arbitrary: t)
  case Nil
  then show ?case by simp
next
  case (Cons x xs)
  show ?case
  proof (cases "rdtype x = q")
    case True
    with Cons.prems show ?thesis by (simp add: Let_def)
  next
    case False
    show ?thesis
    proof (cases "rdtype x = 5")
      case True
      with False Cons.prems have "a = Str (butlast (rd_str x))" "q \<noteq> 5"
        by (auto simp: Let_def)
      with True show ?thesis
        by (intro conjI exI [of _ "[]"] exI [of _ x] exI [of _ xs]) simp_all
    next
      case no: False
      with False Cons.prems
      have "scan_rrset q (Str (butlast (rd_str x))) xs = Alias a" by (simp add: Let_def)
      from Cons.IH [OF this] obtain before c after where
        *: "q \<noteq> 5" "xs = before @ c # after"
        "\<forall>rd \<in> set before. rdtype rd \<noteq> q \<and> rdtype rd \<noteq> 5" "rdtype c = 5"
        "a = Str (butlast (rd_str c))" by blast
      with False no show ?thesis
        by (intro conjI exI [of _ "x # before"] exI [of _ c] exI [of _ after]) simp_all
    qed
  qed
qed

lemma scan_rrset_NoMatch_cases:
  "scan_rrset q t recs = NoMatch t' \<Longrightarrow> \<forall>rd \<in> set recs. rdtype rd \<noteq> q \<and> rdtype rd \<noteq> 5"
  by (induction recs arbitrary: t) (auto simp: Let_def split: if_splits)

lemma server_loop_cases:
  "server_loop W dq q t servers tr = (e, tr1) \<Longrightarrow>
   \<exists>k \<le> length servers.
     (\<forall>i<k. falls_through q (udp W (tr @ map (Send dq) (take i servers)) dq (servers ! i))) \<and>
     (case e of
        Fell t' \<Rightarrow> k = length servers \<and> tr1 = tr @ map (Send dq) servers
      | Recurse t' ss \<Rightarrow>
          k < length servers \<and> tr1 = tr @ map (Send dq) (take (Suc k) servers) \<and>
          (\<exists>r. udp W (tr @ map (Send dq) (take k servers)) dq (servers ! k) = Inr r \<and>
             ((answer r = [] \<and> additional r \<noteq> [] \<and> ss = ip_addresses (additional r))
              \<or> (q \<noteq> 5 \<and> ss = ROOT_SERVERS \<and>
                  (\<exists>before c after.
                     concat (map items (answer r)) = before @ c # after \<and>
                     (\<forall>rd \<in> set before. rdtype rd \<noteq> q \<and> rdtype rd \<noteq> 5) \<and>
                     rdtype c = 5 \<and> t' = Str (butlast (rd_str c))))))
      | Answered r \<Rightarrow> True
      | Raise err \<Rightarrow> True)"
proof (induction servers arbitrary: t tr)
  case Nil
  then show ?case by auto
next
  case (Cons s rest)
  let ?tr1 = "tr @ [Send dq s]"
  have later: ?case
    if fall: "falls_through q (udp W tr dq s)"
      and loop: "server_loop W dq q t1 rest ?tr1 = (e, tr1)" for t1
  proof -
    from Cons.IH [OF loop] obtain k where k: "k \<le> length rest"
      "\<forall>i<k. falls_through q (udp W (?tr1 @ map (Send dq) (take i rest)) dq (rest ! i))"
      "(case e of
        Fell t' \<Rightarrow> k = length rest \<and> tr1 = ?tr1 @ map (Send dq) rest
      | Recurse t' ss \<Rightarrow>
          k < length rest \<and> tr1 = ?tr1 @ map (Send dq) (take (Suc k) rest) \<and>
          (\<exists>r. udp W (?tr1 @ map (Send dq) (take k rest)) dq (rest ! k) = Inr r \<and>
             ((answer r = [] \<and> additional r \<noteq> [] \<and> ss = ip_addresses (additional r))
              \<or> (q \<noteq> 5 \<and> ss = ROOT_SERVERS \<and>
                  (\<exists>before c after.
                     concat (map items (answer r)) = before @ c # after \<and>
                     (\<forall>rd \<in> set before. rdtype rd \<noteq> q \<and> rdtype rd \<noteq> 5) \<and>
                     rdtype c = 5 \<and> t' = Str (butlast (rd_str c))))))
      | Answered r \<Rightarrow> True
      | Raise err \<Rightarrow> True)" by blast
    show ?thesis
    proof (rule exI [of _ "Suc k"], intro conjI)
      show "Suc k \<le> length (s # rest)" using k(1) by simp
      show "\<forall>i<Suc k. falls_through q
              (udp W (tr @ map (Send dq) (take i (s # rest))) dq ((s # rest) ! i))"
        unfolding All_less_Suc2 using fall k(2) by simp
      show "case e of
        Fell t' \<Rightarrow> Suc k = length (s # rest) \<and> tr1 = tr @ map (Send dq) (s # rest)
      | Recurse t' ss \<Rightarrow>
          Suc k < length (s # rest) \<and> tr1 = tr @ map (Send dq) (take (Suc (Suc k)) (s # rest)) \<and>
          (\<exists>r. udp W (tr @ map (Send dq) (take (Suc k) (s # rest))) dq ((s # rest) ! Suc k) = Inr r \<and>
             ((answer r = [] \<and> additional r \<noteq> [] \<and> ss = ip_addresses (additional r))
              \<or> (q \<noteq> 5 \<and> ss = ROOT_SERVERS \<and>
                  (\<exists>before c after.
                     concat (map items (answer r)) = before @ c # after \<and>
                     (\<forall>rd \<in> set before. rdtype rd \<noteq> q \<and> rdtype rd \<noteq> 5) \<and>
                     rdtype c = 5 \<and> t' = Str (butlast (rd_str c))))))
      | Answered r \<Rightarrow> True
      | Raise err \<Rightarrow> True"
        using k(3) by (cases e) simp_all
    qed
  qed
  have stop: ?case
    if "case e of
        Fell t' \<Rightarrow> False
      | Recurse t' ss \<Rightarrow>
          tr1 = ?tr1 \<and>
          (\<exists>r. udp W tr dq s = Inr r \<and>
             ((answer r = [] \<and> additional r \<noteq> [] \<and> ss = ip_addresses (additional r))
              \<or> (q \<noteq> 5 \<and> ss = ROOT_SERVERS \<and>
                  (\<exists>before c after.
                     concat (map items (answer r)) = before @ c # after \<and>
                     (\<forall>rd \<in> set before. rdtype rd \<noteq> q \<and> rdtype rd \<noteq> 5) \<and>
                     rdtype c = 5 \<and> t' = Str (butlast (rd_str c))))))
      | Answered r \<Rightarrow> True
      | Raise err \<Rightarrow> True"
    using that by (intro exI [of _ 0]) (cases e; simp)
  show ?case
  proof (cases "udp W tr dq s")
    case (Inl err)
    show ?thesis
    proof (cases "err = Timeout")
      case True
      with Inl Cons.prems show ?thesis
        by (intro later [of t]) (simp_all add: falls_through_def)
    next
      case False
      with Inl Cons.prems have "e = Raise err" by auto
      then show ?thesis by (intro stop) simp
    qed
  next
    case (Inr r)
    show ?thesis
    proof (cases "answer r \<noteq> []")
      case True
      show ?thesis
      proof (cases "scan_answer q t (answer r)")
        case Found
        with Inr True Cons.prems have "e = Answered r" by auto
        then show ?thesis by (intro stop) simp
      next
        case (Alias a)
        with Inr True Cons.prems have e: "e = Recurse a ROOT_SERVERS" "tr1 = ?tr1" by auto
        from Alias have "scan_rrset q t (concat (map items (answer r))) = Alias a"
          by (simp add: scan_answer_concat)
        from scan_rrset_Alias_cases [OF this] e Inr show ?thesis
          by (intro stop) simp
      next
        case (NoMatch t1)
        then have "scan_rrset q t (concat (map items (answer r))) = NoMatch t1"
          by (simp add: scan_answer_concat)
        from scan_rrset_NoMatch_cases [OF this] Inr True
        have "falls_through q (udp W tr dq s)" by (simp add: falls_through_def)
        moreover from NoMatch Inr True Cons.prems
        have "server_loop W dq q t1 rest ?tr1 = (e, tr1)" by simp
        ultimately show ?thesis by (rule later)
      qed
    next
      case False
      show ?thesis
      proof (cases "additional r \<noteq> []")
        case True
        with Inr False Cons.prems
        have "e = Recurse t (ip_addresses (additional r))" "tr1 = ?tr1" by auto
        with Inr False True show ?thesis by (intro stop) simp
      next
        case no: False
        with Inr False Cons.prems show ?thesis
          by (intro later [of t]) (simp_all add: falls_through_def)
      qed
    qed
  qed
qed

lemma server_loop_falls:
  "(\<forall>i<length servers.
      falls_through q (udp W (tr @ map (Send dq) (take i servers)) dq (servers ! i))) \<Longrightarrow>
   \<exists>t'. server_loop W dq q t servers tr = (Fell t', tr @ map (Send dq) servers)"
proof (induction servers arbitrary: t tr)
  case Nil
  show ?case by simp
next
  case (Cons s rest)
  from Cons.prems have here: "falls_through q (udp W tr dq s)"
    and rest: "\<forall>i<length rest. falls_through q
        (udp W ((tr @ [Send dq s]) @ map (Send dq) (take i rest)) dq (rest ! i))"
    by (simp_all add: All_less_Suc2)
  have "\<exists>t1. server_loop W dq q t (s # rest) tr = server_loop W dq q t1 rest (tr @ [Send dq s])"
  proof (cases "udp W tr dq s")
    case (Inl err)
    with here show ?thesis by (intro exI [of _ t]) (simp add: falls_through_def)
  next
    case (Inr r)
    show ?thesis
    proof (cases "answer r \<noteq> []")
      case True
      with here Inr have "\<forall>rd \<in> set (concat (map items (answer r))). rdtype rd \<noteq> q \<and> rdtype rd \<noteq> 5"
        by (simp add: falls_through_def)
      from scan_rrset_no_match [OF this]
      obtain t1 where "scan_answer q t (answer r) = NoMatch t1"
        by (simp add: scan_answer_concat)
      with Inr True show ?thesis by (intro exI [of _ t1]) simp
    next
      case False
      with here Inr show ?thesis by (intro exI [of _ t]) (simp add: falls_through_def)
    qed
  qed
  then obtain t1 where
    "server_loop W dq q t (s # rest) tr = server_loop W dq q t1 rest (tr @ [Send dq s])" ..
  with Cons.IH [OF rest, of t1] show ?case by simp
qed

text \<open>
  Every call that returns has logged its own \<open>Call\<close> event first. The proof is by
  induction over the recursion.
\<close>

lemma recursive_dns_lookup_trace_aux:
  assumes "recursive_dns_lookup W t q servers tr = Some y"
  shows "\<exists>later. snd y = tr @ Call t q servers # later"
proof (rule recursive_dns_lookup.raw_induct
    [where P = "\<lambda>W t q servers tr y. \<exists>later. snd y = tr @ Call t q servers # later",
     OF _ assms])
  fix f :: "world \<Rightarrow> target \<Rightarrow> nat \<Rightarrow> string list \<Rightarrow> event list \<Rightarrow> outcome option"
    and V :: world and n :: target and ty :: nat and ss :: "string list"
    and tr0 :: "event list" and z :: outcome
  assume IH: "\<And>V n ty ss tr0 z. f V n ty ss tr0 = Some z \<Longrightarrow>
      \<exists>later. snd z = tr0 @ Call n ty ss # later"
  assume body: "(if ss = [] then Some (Inr None, tr0 @ [Call n ty ss])
      else case make_query V n ty of
           Inl e \<Rightarrow> Some (Inl e, tr0 @ [Call n ty ss, Build n ty])
         | Inr dns_query \<Rightarrow>
             (case server_loop V dns_query ty n ss (tr0 @ [Call n ty ss, Build n ty]) of
                (Fell target_name', tr') \<Rightarrow> Some (Inr None, tr')
              | (Answered query_response, tr') \<Rightarrow> Some (Inr (Some query_response), tr')
              | (Raise e, tr') \<Rightarrow> Some (Inl e, tr')
              | (Recurse target_name' servers', tr') \<Rightarrow> f V target_name' ty servers' tr')) =
      Some z"
  show "\<exists>later. snd z = tr0 @ Call n ty ss # later"
  proof (cases "ss = []")
    case True
    with body show ?thesis by auto
  next
    case False
    show ?thesis
    proof (cases "make_query V n ty")
      case (Inl e)
      with False body show ?thesis by auto
    next
      case (Inr dq)
      let ?tr1 = "tr0 @ [Call n ty ss, Build n ty]"
      obtain e tr2 where loop: "server_loop V dq ty n ss ?tr1 = (e, tr2)"
        by (cases "server_loop V dq ty n ss ?tr1")
      from server_loop_trace [OF loop] obtain k where
        tr2: "tr2 = ?tr1 @ map (Send dq) (take k ss)" by blast
      show ?thesis
      proof (cases e)
        case (Recurse n' ss')
        with False Inr loop body have "f V n' ty ss' tr2 = Some z" by simp
        from IH [OF this] obtain later where "snd z = tr2 @ Call n' ty ss' # later" by blast
        with tr2 show ?thesis by simp
      qed (use False Inr loop body tr2 in auto)
    qed
  qed
qed

lemma recursive_dns_lookup_trace:
  "recursive_dns_lookup W t q servers tr = Some (res, tr') \<Longrightarrow>
   \<exists>later. tr' = tr @ Call t q servers # later"
  using recursive_dns_lookup_trace_aux [of W t q servers tr "(res, tr')"] by simp


text \<open>One step of the function, for any server list.\<close>

lemma recursive_dns_lookup_enter:
  "recursive_dns_lookup W t q servers tr =
     (if servers = [] then Some (Inr None, tr @ [Call t q servers])
      else case make_query W t q of
             Inl e \<Rightarrow> Some (Inl e, tr @ [Call t q servers, Build t q])
           | Inr dq \<Rightarrow>
               after_loop W q (server_loop W dq q t servers (tr @ [Call t q servers, Build t q])))"
  by (subst recursive_dns_lookup.simps) (simp add: after_loop_def split: sum.splits)

lemma collect_results_raises:
  "from_text W nm = Inl e \<Longrightarrow> collect_results W nm tr = Some (Inl e, tr)"
  by (simp add: collect_results_def)

text \<open>The four lookups of \<open>collect_results\<close> in the world \<open>world_cname_extra\<close>.\<close>

lemma collect_results_cname_extra:
  assumes "dotted nm = Inr n"
  shows "collect_results world_cname_extra nm tr =
     Some (Inr (cname_extra_results nm), tr @ cname_extra_trace n)"
proof -
  let ?tr5 = "tr @ [Call (Name n) 5 ROOT_SERVERS, Build (Name n) 5, Send (Query n 5) ''198.41.0.4'']"
  have name: "from_text world_cname_extra nm = Inr n"
    using assms by (simp add: world_cname_extra_def)
  have fields: "answer cname_with_address \<noteq> []"
    "scan_answer 5 (Name n) (answer cname_with_address) = Found"
    by (simp_all add: cname_with_address_def rd_def)
  have "server_loop world_cname_extra (Query n 5) 5 (Name n) ROOT_SERVERS
          (tr @ [Call (Name n) 5 ROOT_SERVERS, Build (Name n) 5]) =
        (Answered cname_with_address, ?tr5)"
  proof -
    obtain others where roots: "ROOT_SERVERS = ''198.41.0.4'' # others"
      by (simp add: ROOT_SERVERS_def)
    show ?thesis
      unfolding roots by (simp add: world_cname_extra_def fields)
  qed
  then have l5: "lookup world_cname_extra (Name n) 5 tr = Some (Inr (Some cname_with_address), ?tr5)"
    unfolding lookup_def
    by (intro recursive_dns_lookup_Answered [where dq = "Query n 5"])
       (simp_all add: ROOT_SERVERS_not_Nil)
  have quiet: "\<And>q tr s. q \<noteq> 5 \<Longrightarrow> udp world_cname_extra tr (Query n q) s = Inl Timeout"
    by (simp add: world_cname_extra_def)
  have "collect_results world_cname_extra nm tr =
     Some (Inr (Map.empty(''CNAME'' \<mapsto> cnames nm (Some cname_with_address),
                          ''A'' \<mapsto> arecords None, ''AAAA'' \<mapsto> aaaarecords None,
                          ''MX'' \<mapsto> mxrecords None)),
           ((?tr5 @ silent_trace n 1) @ silent_trace n 28) @ silent_trace n 15)"
    by (rule collect_results_returns [OF name l5]) (rule lookup_all_timeout, rule quiet, simp)+
  then show ?thesis
    by (simp add: reshape_None cnames_def cname_with_address_def cname_extra_results_def
          cname_extra_trace_def)
qed

section \<open>Claims\<close>

subsection \<open>C1: the server list and the end of the loop\<close>

lemma empty_glue_run:
  "recursive_dns_lookup world_empty_glue (Name ''example.com.'') 1
     [''192.0.2.1'', ''192.0.2.2''] [] =
   Some (Inr None,
     [Call (Name ''example.com.'') 1 [''192.0.2.1'', ''192.0.2.2''],
      Build (Name ''example.com.'') 1,
      Send (Query ''example.com.'' 1) ''192.0.2.1'',
      Call (Name ''example.com.'') 1 []])"
proof -
  have loop: "server_loop world_empty_glue (Query ''example.com.'' 1) 1 (Name ''example.com.'')
      [''192.0.2.1'', ''192.0.2.2'']
      ([] @ [Call (Name ''example.com.'') 1 [''192.0.2.1'', ''192.0.2.2''],
             Build (Name ''example.com.'') 1]) =
     (Recurse (Name ''example.com.'') [],
      [Call (Name ''example.com.'') 1 [''192.0.2.1'', ''192.0.2.2''],
       Build (Name ''example.com.'') 1,
       Send (Query ''example.com.'' 1) ''192.0.2.1''])"
    by (simp add: world_empty_glue_def glue_of_aaaa_referral) (simp add: aaaa_referral_def)
  show ?thesis
    by (subst recursive_dns_lookup_Recurse [OF _ _ loop])
       (simp_all add: recursive_dns_lookup_Nil)
qed

text \<open>
  C1, as stated, fails. The first of two servers answers with a referral whose
  additional section holds IPv6 glue only, so that no address is extracted. The
  resolver returns what the call with the empty list returns, which is \<^verbatim>\<open>None\<close>: the
  second server, which would have answered, is never asked.
\<close>

theorem C1_counterexample:
  "recursive_dns_lookup world_empty_glue (Name ''example.com.'') 1
     [''192.0.2.1'', ''192.0.2.2''] [] =
   Some (Inr None,
     [Call (Name ''example.com.'') 1 [''192.0.2.1'', ''192.0.2.2''],
      Build (Name ''example.com.'') 1,
      Send (Query ''example.com.'' 1) ''192.0.2.1'',
      Call (Name ''example.com.'') 1 []])"
  by (rule empty_glue_run)

text \<open>
  C1, amended. When a call with a non-empty server list returns \<^verbatim>\<open>None\<close>, the query
  was built, and there is a number \<open>k\<close> such that each of the first \<open>k\<close> addresses of
  the list, asked in order, gave no next step: it timed out, or its answer section held
  no record of the requested type and no CNAME, or both its sections were empty. Then
  one of two things happened. Either \<open>k\<close> is the length of the list: every address was
  tried, the loop ran off its end, and the trace holds the sends to all addresses in
  order. Or the address after the first \<open>k\<close> answered with a referral (an empty answer
  section and a non-empty additional section) or with an alias (a CNAME record before
  any record of the requested type, which is not CNAME), and the \<^verbatim>\<open>None\<close> is what the
  recursive call for the extracted addresses, or for the alias target and the root
  servers, returned after that send; the addresses after it were not tried.
  Conversely, when every address of the list gives no next step, the call returns
  \<^verbatim>\<open>None\<close> after sending the query to every address in order.
\<close>

theorem C1_tried_in_order:
  "(recursive_dns_lookup W t q servers tr = Some (Inr None, tr') \<and> servers \<noteq> [] \<longrightarrow>
    (\<exists>dq k. make_query W t q = Inr dq \<and> k \<le> length servers \<and>
       (\<forall>i<k. falls_through q
                (udp W (tr @ [Call t q servers, Build t q] @
                          map (Send dq) (take i servers)) dq (servers ! i))) \<and>
       ((k = length servers \<and>
         tr' = tr @ [Call t q servers, Build t q] @ map (Send dq) servers)
        \<or> (k < length servers \<and>
            (\<exists>r. udp W (tr @ [Call t q servers, Build t q] @
                           map (Send dq) (take k servers)) dq (servers ! k) = Inr r \<and>
               ((answer r = [] \<and> additional r \<noteq> [] \<and>
                 (\<exists>t'. recursive_dns_lookup W t' q (ip_addresses (additional r))
                          (tr @ [Call t q servers, Build t q] @
                           map (Send dq) (take (Suc k) servers)) = Some (Inr None, tr')))
                \<or> (q \<noteq> 5 \<and>
                    (\<exists>before c after.
                       concat (map items (answer r)) = before @ c # after \<and>
                       (\<forall>rd \<in> set before. rdtype rd \<noteq> q \<and> rdtype rd \<noteq> 5) \<and>
                       rdtype c = 5 \<and>
                       recursive_dns_lookup W (Str (butlast (rd_str c))) q ROOT_SERVERS
                         (tr @ [Call t q servers, Build t q] @
                          map (Send dq) (take (Suc k) servers)) = Some (Inr None, tr')))))))))
   \<and> (servers \<noteq> [] \<and> make_query W t q = Inr dq0 \<and>
     (\<forall>i<length servers. falls_through q
        (udp W (tr @ [Call t q servers, Build t q] @
                  map (Send dq0) (take i servers)) dq0 (servers ! i))) \<longrightarrow>
     recursive_dns_lookup W t q servers tr =
       Some (Inr None, tr @ [Call t q servers, Build t q] @ map (Send dq0) servers))"
proof (intro conjI impI)
  assume "recursive_dns_lookup W t q servers tr = Some (Inr None, tr') \<and> servers \<noteq> []"
  then have ret: "recursive_dns_lookup W t q servers tr = Some (Inr None, tr')"
    and ne: "servers \<noteq> []" by simp_all
  let ?tr0 = "tr @ [Call t q servers, Build t q]"
  show "(\<exists>dq k. make_query W t q = Inr dq \<and> k \<le> length servers \<and>
       (\<forall>i<k. falls_through q
                (udp W (tr @ [Call t q servers, Build t q] @
                          map (Send dq) (take i servers)) dq (servers ! i))) \<and>
       ((k = length servers \<and>
         tr' = tr @ [Call t q servers, Build t q] @ map (Send dq) servers)
        \<or> (k < length servers \<and>
            (\<exists>r. udp W (tr @ [Call t q servers, Build t q] @
                           map (Send dq) (take k servers)) dq (servers ! k) = Inr r \<and>
               ((answer r = [] \<and> additional r \<noteq> [] \<and>
                 (\<exists>t'. recursive_dns_lookup W t' q (ip_addresses (additional r))
                          (tr @ [Call t q servers, Build t q] @
                           map (Send dq) (take (Suc k) servers)) = Some (Inr None, tr')))
                \<or> (q \<noteq> 5 \<and>
                    (\<exists>before c after.
                       concat (map items (answer r)) = before @ c # after \<and>
                       (\<forall>rd \<in> set before. rdtype rd \<noteq> q \<and> rdtype rd \<noteq> 5) \<and>
                       rdtype c = 5 \<and>
                       recursive_dns_lookup W (Str (butlast (rd_str c))) q ROOT_SERVERS
                         (tr @ [Call t q servers, Build t q] @
                          map (Send dq) (take (Suc k) servers)) = Some (Inr None, tr'))))))))"
  proof (cases "make_query W t q")
    case (Inl e)
    with ret ne show ?thesis by (simp add: recursive_dns_lookup_raises)
  next
    case (Inr dq)
    obtain e tr1 where loop: "server_loop W dq q t servers ?tr0 = (e, tr1)"
      by (cases "server_loop W dq q t servers ?tr0")
    from server_loop_cases [OF loop] obtain k where k: "k \<le> length servers"
      "\<forall>i<k. falls_through q (udp W (?tr0 @ map (Send dq) (take i servers)) dq (servers ! i))"
      and ending: "case e of
        Fell t' \<Rightarrow> k = length servers \<and> tr1 = ?tr0 @ map (Send dq) servers
      | Recurse t' ss \<Rightarrow>
          k < length servers \<and> tr1 = ?tr0 @ map (Send dq) (take (Suc k) servers) \<and>
          (\<exists>r. udp W (?tr0 @ map (Send dq) (take k servers)) dq (servers ! k) = Inr r \<and>
             ((answer r = [] \<and> additional r \<noteq> [] \<and> ss = ip_addresses (additional r))
              \<or> (q \<noteq> 5 \<and> ss = ROOT_SERVERS \<and>
                  (\<exists>before c after.
                     concat (map items (answer r)) = before @ c # after \<and>
                     (\<forall>rd \<in> set before. rdtype rd \<noteq> q \<and> rdtype rd \<noteq> 5) \<and>
                     rdtype c = 5 \<and> t' = Str (butlast (rd_str c))))))
      | Answered r \<Rightarrow> True
      | Raise err \<Rightarrow> True" by blast
    show ?thesis
    proof (cases e)
      case (Fell t')
      with ret ne Inr loop have "tr' = tr1" by (simp add: recursive_dns_lookup_Fell)
      with Fell ending have "k = length servers \<and> tr' = ?tr0 @ map (Send dq) servers" by simp
      with Inr k show ?thesis
        by (intro exI [of _ dq] exI [of _ k]) simp
    next
      case (Answered r)
      with ret ne Inr loop show ?thesis by (simp add: recursive_dns_lookup_Answered)
    next
      case (Raise err)
      with ret ne Inr loop show ?thesis by (simp add: recursive_dns_lookup_Raise)
    next
      case (Recurse t' ss)
      with ret ne Inr loop have nested: "recursive_dns_lookup W t' q ss tr1 = Some (Inr None, tr')"
        by (simp add: recursive_dns_lookup_Recurse)
      from Recurse ending obtain r where r: "k < length servers"
        "tr1 = ?tr0 @ map (Send dq) (take (Suc k) servers)"
        "udp W (?tr0 @ map (Send dq) (take k servers)) dq (servers ! k) = Inr r"
        "(answer r = [] \<and> additional r \<noteq> [] \<and> ss = ip_addresses (additional r))
              \<or> (q \<noteq> 5 \<and> ss = ROOT_SERVERS \<and>
                  (\<exists>before c after.
                     concat (map items (answer r)) = before @ c # after \<and>
                     (\<forall>rd \<in> set before. rdtype rd \<noteq> q \<and> rdtype rd \<noteq> 5) \<and>
                     rdtype c = 5 \<and> t' = Str (butlast (rd_str c))))"
        by auto
      from r(4) nested r(2)
      have "(answer r = [] \<and> additional r \<noteq> [] \<and>
                 (\<exists>t'. recursive_dns_lookup W t' q (ip_addresses (additional r))
                          (?tr0 @ map (Send dq) (take (Suc k) servers)) = Some (Inr None, tr')))
                \<or> (q \<noteq> 5 \<and>
                    (\<exists>before c after.
                       concat (map items (answer r)) = before @ c # after \<and>
                       (\<forall>rd \<in> set before. rdtype rd \<noteq> q \<and> rdtype rd \<noteq> 5) \<and>
                       rdtype c = 5 \<and>
                       recursive_dns_lookup W (Str (butlast (rd_str c))) q ROOT_SERVERS
                         (?tr0 @ map (Send dq) (take (Suc k) servers)) = Some (Inr None, tr')))"
        by blast
      with Inr k r(1,3) show ?thesis
        by (intro exI [of _ dq] exI [of _ k]) (simp; blast)
    qed
  qed
next
  assume "servers \<noteq> [] \<and> make_query W t q = Inr dq0 \<and>
     (\<forall>i<length servers. falls_through q
        (udp W (tr @ [Call t q servers, Build t q] @
                  map (Send dq0) (take i servers)) dq0 (servers ! i)))"
  then have ne: "servers \<noteq> []" and mq: "make_query W t q = Inr dq0"
    and all: "\<forall>i<length servers. falls_through q
        (udp W ((tr @ [Call t q servers, Build t q]) @
                  map (Send dq0) (take i servers)) dq0 (servers ! i))"
    by simp_all
  from server_loop_falls [OF all, of t] obtain t' where
    "server_loop W dq0 q t servers (tr @ [Call t q servers, Build t q]) =
       (Fell t', (tr @ [Call t q servers, Build t q]) @ map (Send dq0) servers)" ..
  with ne mq show "recursive_dns_lookup W t q servers tr =
       Some (Inr None, tr @ [Call t q servers, Build t q] @ map (Send dq0) servers)"
    by (simp add: recursive_dns_lookup_Fell)
qed

text \<open>
  Both parts at concrete inputs: the first part at the run in which the first address
  refers with IPv6 glue only, the second part at two addresses that time out.
\<close>

theorem C1_witness:
  "(\<exists>dq k. make_query world_empty_glue (Name ''example.com.'') (1::nat) = Inr dq \<and> k \<le> length [''192.0.2.1'', ''192.0.2.2''] \<and>
       (\<forall>i<k. falls_through (1::nat)
                (udp world_empty_glue ([] @ [Call (Name ''example.com.'') (1::nat) [''192.0.2.1'', ''192.0.2.2''], Build (Name ''example.com.'') (1::nat)] @
                          map (Send dq) (take i [''192.0.2.1'', ''192.0.2.2''])) dq ([''192.0.2.1'', ''192.0.2.2''] ! i))) \<and>
       ((k = length [''192.0.2.1'', ''192.0.2.2''] \<and>
         [Call (Name ''example.com.'') 1 [''192.0.2.1'', ''192.0.2.2''],
      Build (Name ''example.com.'') 1,
      Send (Query ''example.com.'' 1) ''192.0.2.1'',
      Call (Name ''example.com.'') 1 []] = [] @ [Call (Name ''example.com.'') (1::nat) [''192.0.2.1'', ''192.0.2.2''], Build (Name ''example.com.'') (1::nat)] @ map (Send dq) [''192.0.2.1'', ''192.0.2.2''])
        \<or> (k < length [''192.0.2.1'', ''192.0.2.2''] \<and>
            (\<exists>r. udp world_empty_glue ([] @ [Call (Name ''example.com.'') (1::nat) [''192.0.2.1'', ''192.0.2.2''], Build (Name ''example.com.'') (1::nat)] @
                           map (Send dq) (take k [''192.0.2.1'', ''192.0.2.2''])) dq ([''192.0.2.1'', ''192.0.2.2''] ! k) = Inr r \<and>
               ((answer r = [] \<and> additional r \<noteq> [] \<and>
                 (\<exists>t'. recursive_dns_lookup world_empty_glue t' (1::nat) (ip_addresses (additional r))
                          ([] @ [Call (Name ''example.com.'') (1::nat) [''192.0.2.1'', ''192.0.2.2''], Build (Name ''example.com.'') (1::nat)] @
                           map (Send dq) (take (Suc k) [''192.0.2.1'', ''192.0.2.2''])) = Some (Inr None, [Call (Name ''example.com.'') 1 [''192.0.2.1'', ''192.0.2.2''],
      Build (Name ''example.com.'') 1,
      Send (Query ''example.com.'' 1) ''192.0.2.1'',
      Call (Name ''example.com.'') 1 []])))
                \<or> ((1::nat) \<noteq> 5 \<and>
                    (\<exists>before c after.
                       concat (map items (answer r)) = before @ c # after \<and>
                       (\<forall>rd \<in> set before. rdtype rd \<noteq> (1::nat) \<and> rdtype rd \<noteq> 5) \<and>
                       rdtype c = 5 \<and>
                       recursive_dns_lookup world_empty_glue (Str (butlast (rd_str c))) (1::nat) ROOT_SERVERS
                         ([] @ [Call (Name ''example.com.'') (1::nat) [''192.0.2.1'', ''192.0.2.2''], Build (Name ''example.com.'') (1::nat)] @
                          map (Send dq) (take (Suc k) [''192.0.2.1'', ''192.0.2.2''])) = Some (Inr None, [Call (Name ''example.com.'') 1 [''192.0.2.1'', ''192.0.2.2''],
      Build (Name ''example.com.'') 1,
      Send (Query ''example.com.'' 1) ''192.0.2.1'',
      Call (Name ''example.com.'') 1 []]))))))))
   \<and> recursive_dns_lookup silent (Name ''example.com.'') 1 [''192.0.2.1'', ''192.0.2.2''] [] =
       Some (Inr None,
         [Call (Name ''example.com.'') 1 [''192.0.2.1'', ''192.0.2.2''],
          Build (Name ''example.com.'') 1,
          Send (Query ''example.com.'' 1) ''192.0.2.1'',
          Send (Query ''example.com.'' 1) ''192.0.2.2''])"
proof (rule conjI)
  have "recursive_dns_lookup world_empty_glue (Name ''example.com.'') (1::nat) [''192.0.2.1'', ''192.0.2.2''] [] = Some (Inr None, [Call (Name ''example.com.'') 1 [''192.0.2.1'', ''192.0.2.2''],
      Build (Name ''example.com.'') 1,
      Send (Query ''example.com.'' 1) ''192.0.2.1'',
      Call (Name ''example.com.'') 1 []]) \<and> [''192.0.2.1'', ''192.0.2.2''] \<noteq> [] \<longrightarrow>
    (\<exists>dq k. make_query world_empty_glue (Name ''example.com.'') (1::nat) = Inr dq \<and> k \<le> length [''192.0.2.1'', ''192.0.2.2''] \<and>
       (\<forall>i<k. falls_through (1::nat)
                (udp world_empty_glue ([] @ [Call (Name ''example.com.'') (1::nat) [''192.0.2.1'', ''192.0.2.2''], Build (Name ''example.com.'') (1::nat)] @
                          map (Send dq) (take i [''192.0.2.1'', ''192.0.2.2''])) dq ([''192.0.2.1'', ''192.0.2.2''] ! i))) \<and>
       ((k = length [''192.0.2.1'', ''192.0.2.2''] \<and>
         [Call (Name ''example.com.'') 1 [''192.0.2.1'', ''192.0.2.2''],
      Build (Name ''example.com.'') 1,
      Send (Query ''example.com.'' 1) ''192.0.2.1'',
      Call (Name ''example.com.'') 1 []] = [] @ [Call (Name ''example.com.'') (1::nat) [''192.0.2.1'', ''192.0.2.2''], Build (Name ''example.com.'') (1::nat)] @ map (Send dq) [''192.0.2.1'', ''192.0.2.2''])
        \<or> (k < length [''192.0.2.1'', ''192.0.2.2''] \<and>
            (\<exists>r. udp world_empty_glue ([] @ [Call (Name ''example.com.'') (1::nat) [''192.0.2.1'', ''192.0.2.2''], Build (Name ''example.com.'') (1::nat)] @
                           map (Send dq) (take k [''192.0.2.1'', ''192.0.2.2''])) dq ([''192.0.2.1'', ''192.0.2.2''] ! k) = Inr r \<and>
               ((answer r = [] \<and> additional r \<noteq> [] \<and>
                 (\<exists>t'. recursive_dns_lookup world_empty_glue t' (1::nat) (ip_addresses (additional r))
                          ([] @ [Call (Name ''example.com.'') (1::nat) [''192.0.2.1'', ''192.0.2.2''], Build (Name ''example.com.'') (1::nat)] @
                           map (Send dq) (take (Suc k) [''192.0.2.1'', ''192.0.2.2''])) = Some (Inr None, [Call (Name ''example.com.'') 1 [''192.0.2.1'', ''192.0.2.2''],
      Build (Name ''example.com.'') 1,
      Send (Query ''example.com.'' 1) ''192.0.2.1'',
      Call (Name ''example.com.'') 1 []])))
                \<or> ((1::nat) \<noteq> 5 \<and>
                    (\<exists>before c after.
                       concat (map items (answer r)) = before @ c # after \<and>
                       (\<forall>rd \<in> set before. rdtype rd \<noteq> (1::nat) \<and> rdtype rd \<noteq> 5) \<and>
                       rdtype c = 5 \<and>
                       recursive_dns_lookup world_empty_glue (Str (butlast (rd_str c))) (1::nat) ROOT_SERVERS
                         ([] @ [Call (Name ''example.com.'') (1::nat) [''192.0.2.1'', ''192.0.2.2''], Build (Name ''example.com.'') (1::nat)] @
                          map (Send dq) (take (Suc k) [''192.0.2.1'', ''192.0.2.2''])) = Some (Inr None, [Call (Name ''example.com.'') 1 [''192.0.2.1'', ''192.0.2.2''],
      Build (Name ''example.com.'') 1,
      Send (Query ''example.com.'' 1) ''192.0.2.1'',
      Call (Name ''example.com.'') 1 []]))))))))"
    (is "?H \<longrightarrow> ?C")
    by (rule C1_tried_in_order [of world_empty_glue "Name ''example.com.''" 1
          "[''192.0.2.1'', ''192.0.2.2'']" "[]"
          "[Call (Name ''example.com.'') 1 [''192.0.2.1'', ''192.0.2.2''],
            Build (Name ''example.com.'') 1,
            Send (Query ''example.com.'' 1) ''192.0.2.1'',
            Call (Name ''example.com.'') 1 []]" dq0, THEN conjunct1])
  moreover have ?H using empty_glue_run by simp
  ultimately show ?C by (rule mp)
next
  have "[''192.0.2.1'', ''192.0.2.2''] \<noteq> [] \<and> make_query silent (Name ''example.com.'') (1::nat) = Inr (Query ''example.com.'' 1) \<and>
     (\<forall>i<length [''192.0.2.1'', ''192.0.2.2'']. falls_through (1::nat)
        (udp silent ([] @ [Call (Name ''example.com.'') (1::nat) [''192.0.2.1'', ''192.0.2.2''], Build (Name ''example.com.'') (1::nat)] @
                  map (Send (Query ''example.com.'' 1)) (take i [''192.0.2.1'', ''192.0.2.2''])) (Query ''example.com.'' 1) ([''192.0.2.1'', ''192.0.2.2''] ! i))) \<longrightarrow>
    recursive_dns_lookup silent (Name ''example.com.'') (1::nat) [''192.0.2.1'', ''192.0.2.2''] [] =
       Some (Inr None, [] @ [Call (Name ''example.com.'') (1::nat) [''192.0.2.1'', ''192.0.2.2''], Build (Name ''example.com.'') (1::nat)] @ map (Send (Query ''example.com.'' 1)) [''192.0.2.1'', ''192.0.2.2''])"
    (is "?H \<longrightarrow> ?C")
    by (rule C1_tried_in_order [of silent "Name ''example.com.''" 1
          "[''192.0.2.1'', ''192.0.2.2'']" "[]" tr' "Query ''example.com.'' 1", THEN conjunct2])
  moreover have ?H
    by (simp add: silent_def falls_through_def)
  ultimately have ?C by (rule mp)
  then show "recursive_dns_lookup silent (Name ''example.com.'') 1
      [''192.0.2.1'', ''192.0.2.2''] [] =
       Some (Inr None,
         [Call (Name ''example.com.'') 1 [''192.0.2.1'', ''192.0.2.2''],
          Build (Name ''example.com.'') 1,
          Send (Query ''example.com.'' 1) ''192.0.2.1'',
          Send (Query ''example.com.'' 1) ''192.0.2.2''])"
    by simp
qed

subsection \<open>C3: an alias restarts from the root servers\<close>

text \<open>
  C3. The requested type is not CNAME. The servers before \<open>s\<close> have been tried and the
  loop has moved on. The answer section of the response of \<open>s\<close> holds a CNAME record
  \<open>c\<close>, and no record before it in the section has the requested type or is a CNAME.
  Then the loop ends there with the recursive call whose name is the text of \<open>c\<close> (its
  target name, without the last character, which is the dot of the root), whose type is
  the requested one and whose servers are the full list \<open>ROOT_SERVERS\<close>. The call
  returns exactly what that recursive call returns. The recursive call enters with
  these three arguments (the \<open>Call\<close> event), builds the query for the new name and runs
  its loop over \<open>ROOT_SERVERS\<close>; whenever the call returns, its trace holds that
  \<open>Call\<close> event right after the send to \<open>s\<close>. The servers after \<open>s\<close> play no part.
\<close>

theorem C3_alias_restarts_from_root:
  assumes "make_query W t q = Inr dq"
    and "server_loop W dq q t pre (tr @ [Call t q (pre @ s # rest), Build t q]) = (Fell t1, tr1)"
    and "udp W tr1 dq s = Inr r"
    and "concat (map items (answer r)) = before @ c # after"
    and "\<forall>rd \<in> set before. rdtype rd \<noteq> q \<and> rdtype rd \<noteq> 5"
    and "rdtype c = 5" and "q \<noteq> 5"
  shows "server_loop W dq q t (pre @ s # rest) (tr @ [Call t q (pre @ s # rest), Build t q]) =
           (Recurse (Str (butlast (rd_str c))) ROOT_SERVERS, tr1 @ [Send dq s])
     \<and> recursive_dns_lookup W t q (pre @ s # rest) tr =
           recursive_dns_lookup W (Str (butlast (rd_str c))) q ROOT_SERVERS (tr1 @ [Send dq s])
     \<and> recursive_dns_lookup W t q (pre @ s # rest) tr =
           (case make_query W (Str (butlast (rd_str c))) q of
              Inl e \<Rightarrow>
                Some (Inl e, tr1 @ [Send dq s, Call (Str (butlast (rd_str c))) q ROOT_SERVERS,
                                    Build (Str (butlast (rd_str c))) q])
            | Inr dq' \<Rightarrow>
                after_loop W q
                  (server_loop W dq' q (Str (butlast (rd_str c))) ROOT_SERVERS
                     (tr1 @ [Send dq s, Call (Str (butlast (rd_str c))) q ROOT_SERVERS,
                             Build (Str (butlast (rd_str c))) q])))
     \<and> (\<forall>res tr'. recursive_dns_lookup W t q (pre @ s # rest) tr = Some (res, tr') \<longrightarrow>
           (\<exists>later. tr' = tr1 @ [Send dq s, Call (Str (butlast (rd_str c))) q ROOT_SERVERS] @ later))"
proof -
  let ?n = "Str (butlast (rd_str c))"
  have loop: "server_loop W dq q t (pre @ s # rest) (tr @ [Call t q (pre @ s # rest), Build t q]) =
          (Recurse ?n ROOT_SERVERS, tr1 @ [Send dq s])"
    using assms(2) server_loop_alias [OF assms(3-7)]
    by (simp add: server_loop_append)
  with assms(1) have eq: "recursive_dns_lookup W t q (pre @ s # rest) tr =
      recursive_dns_lookup W ?n q ROOT_SERVERS (tr1 @ [Send dq s])"
    by (intro recursive_dns_lookup_Recurse) simp_all
  have enter: "recursive_dns_lookup W t q (pre @ s # rest) tr =
           (case make_query W ?n q of
              Inl e \<Rightarrow> Some (Inl e, tr1 @ [Send dq s, Call ?n q ROOT_SERVERS, Build ?n q])
            | Inr dq' \<Rightarrow>
                after_loop W q
                  (server_loop W dq' q ?n ROOT_SERVERS
                     (tr1 @ [Send dq s, Call ?n q ROOT_SERVERS, Build ?n q])))"
    unfolding eq
    by (subst recursive_dns_lookup_enter) (simp add: ROOT_SERVERS_not_Nil split: sum.splits)
  have tr: "\<forall>res tr'. recursive_dns_lookup W t q (pre @ s # rest) tr = Some (res, tr') \<longrightarrow>
           (\<exists>later. tr' = tr1 @ [Send dq s, Call ?n q ROOT_SERVERS] @ later)"
    unfolding eq using recursive_dns_lookup_trace by fastforce
  from loop eq enter tr show ?thesis by blast
qed

lemma alias_example:
  "make_query world_alias (Name ''www.example.com.'') 1 = Inr (Query ''www.example.com.'' 1)"
  "server_loop world_alias (Query ''www.example.com.'' 1) 1 (Name ''www.example.com.'') []
     ([] @ [Call (Name ''www.example.com.'') 1 ([] @ ''192.0.2.1'' # [''192.0.2.2'']),
            Build (Name ''www.example.com.'') 1]) =
   (Fell (Name ''www.example.com.''),
    [Call (Name ''www.example.com.'') 1 [''192.0.2.1'', ''192.0.2.2''],
     Build (Name ''www.example.com.'') 1])"
  "udp world_alias [Call (Name ''www.example.com.'') 1 [''192.0.2.1'', ''192.0.2.2''],
     Build (Name ''www.example.com.'') 1] (Query ''www.example.com.'' 1) ''192.0.2.1'' =
   Inr cname_answer"
  "concat (map items (answer cname_answer)) = [] @ rd 5 ''example.net.'' # []"
  "\<forall>x \<in> set ([] :: rdata list). rdtype x \<noteq> 1 \<and> rdtype x \<noteq> 5"
  "rdtype (rd 5 ''example.net.'') = 5"
  "(1::nat) \<noteq> 5"
  by (simp_all add: world_alias_def cname_answer_def rd_def)

text \<open>The restart for \<^verbatim>\<open>example.net\<close>: the first root server answers with the address.\<close>

lemma alias_restart_run:
  "recursive_dns_lookup world_alias (Str ''example.net'') 1 ROOT_SERVERS tr =
     Some (Inr (Some a_answer),
           tr @ [Call (Str ''example.net'') 1 ROOT_SERVERS, Build (Str ''example.net'') 1,
                 Send (Query ''example.net.'' 1) ''198.41.0.4''])"
proof -
  obtain others where roots: "ROOT_SERVERS = ''198.41.0.4'' # others"
    by (simp add: ROOT_SERVERS_def)
  have fields: "answer a_answer \<noteq> []"
    "scan_answer (Suc 0) (Str ''example.net'') (answer a_answer) = Found"
    by (simp_all add: a_answer_def rd_def)
  have mq: "make_query world_alias (Str ''example.net'') 1 = Inr (Query ''example.net.'' 1)"
    by (simp add: world_alias_def dotted_def)
  have "server_loop world_alias (Query ''example.net.'' 1) 1 (Str ''example.net'') ROOT_SERVERS
          (tr @ [Call (Str ''example.net'') 1 ROOT_SERVERS, Build (Str ''example.net'') 1]) =
        (Answered a_answer,
         tr @ [Call (Str ''example.net'') 1 ROOT_SERVERS, Build (Str ''example.net'') 1,
               Send (Query ''example.net.'' 1) ''198.41.0.4''])"
    unfolding roots by (simp add: world_alias_def fields)
  with mq show ?thesis
    by (intro recursive_dns_lookup_Answered) (simp_all add: ROOT_SERVERS_not_Nil)
qed

theorem C3_witness:
  "recursive_dns_lookup world_alias (Name ''www.example.com.'') 1
     [''192.0.2.1'', ''192.0.2.2''] [] =
   Some (Inr (Some a_answer),
     [Call (Name ''www.example.com.'') 1 [''192.0.2.1'', ''192.0.2.2''],
      Build (Name ''www.example.com.'') 1,
      Send (Query ''www.example.com.'' 1) ''192.0.2.1'',
      Call (Str ''example.net'') 1 ROOT_SERVERS,
      Build (Str ''example.net'') 1,
      Send (Query ''example.net.'' 1) ''198.41.0.4''])"
proof -
  have eq: "recursive_dns_lookup world_alias (Name ''www.example.com.'') 1
      [''192.0.2.1'', ''192.0.2.2''] [] =
    recursive_dns_lookup world_alias (Str ''example.net'') 1 ROOT_SERVERS
      [Call (Name ''www.example.com.'') 1 [''192.0.2.1'', ''192.0.2.2''],
       Build (Name ''www.example.com.'') 1,
       Send (Query ''www.example.com.'' 1) ''192.0.2.1'']"
    using C3_alias_restarts_from_root [OF alias_example, THEN conjunct2, THEN conjunct1]
    by (simp add: rd_def)
  show ?thesis
    unfolding eq alias_restart_run by simp
qed

subsection \<open>C4 and C9: the name of a referral\<close>

text \<open>
  C9. The servers before \<open>s1\<close> have been tried and the loop has moved on. The server
  \<open>s1\<close>, anywhere in the list, answers with a non-empty answer section in which no
  record has the requested type or is a CNAME. The scan has then assigned the text of
  every record, without its last character, to \<^verbatim>\<open>target_name\<close>. The servers \<open>mid\<close> are
  tried next and leave the variable as it is. When the server \<open>s2\<close> after them answers
  with a referral, the loop ends with the recursive call whose name is the text of the
  last scanned record of \<open>s1\<close> (without its last character), and not the name \<open>t\<close>
  that was passed in, and whose servers are the extracted addresses. The call returns
  what that recursive call returns; the recursive call enters with that name (the
  \<open>Call\<close> event) and builds its query for that name. The query sent to \<open>s2\<close> is still
  the one built from \<open>t\<close>.
\<close>

theorem C9_query_name_is_overwritten:
  assumes "make_query W t q = Inr dq"
    and "server_loop W dq q t pre
           (tr @ [Call t q (pre @ s1 # mid @ s2 # rest), Build t q]) = (Fell t1, tr1)"
    and "udp W tr1 dq s1 = Inr r1"
    and "recs = concat (map items (answer r1))" and "recs \<noteq> []"
    and "\<forall>rd \<in> set recs. rdtype rd \<noteq> q \<and> rdtype rd \<noteq> 5"
    and "server_loop W dq q (Str (butlast (rd_str (last recs)))) mid (tr1 @ [Send dq s1]) =
         (Fell (Str (butlast (rd_str (last recs)))), tr2)"
    and "udp W tr2 dq s2 = Inr r2" and "answer r2 = []" and "additional r2 \<noteq> []"
  shows "server_loop W dq q t (pre @ s1 # mid @ s2 # rest)
           (tr @ [Call t q (pre @ s1 # mid @ s2 # rest), Build t q]) =
           (Recurse (Str (butlast (rd_str (last recs)))) (ip_addresses (additional r2)),
            tr2 @ [Send dq s2])
     \<and> recursive_dns_lookup W t q (pre @ s1 # mid @ s2 # rest) tr =
           recursive_dns_lookup W (Str (butlast (rd_str (last recs)))) q
             (ip_addresses (additional r2)) (tr2 @ [Send dq s2])
     \<and> recursive_dns_lookup W t q (pre @ s1 # mid @ s2 # rest) tr =
           (if ip_addresses (additional r2) = [] then
              Some (Inr None,
                    tr2 @ [Send dq s2,
                           Call (Str (butlast (rd_str (last recs)))) q
                             (ip_addresses (additional r2))])
            else
              (case make_query W (Str (butlast (rd_str (last recs)))) q of
                 Inl e \<Rightarrow>
                   Some (Inl e,
                         tr2 @ [Send dq s2,
                                Call (Str (butlast (rd_str (last recs)))) q
                                  (ip_addresses (additional r2)),
                                Build (Str (butlast (rd_str (last recs)))) q])
               | Inr dq' \<Rightarrow>
                   after_loop W q
                     (server_loop W dq' q (Str (butlast (rd_str (last recs))))
                        (ip_addresses (additional r2))
                        (tr2 @ [Send dq s2,
                                Call (Str (butlast (rd_str (last recs)))) q
                                  (ip_addresses (additional r2)),
                                Build (Str (butlast (rd_str (last recs)))) q]))))
     \<and> (\<forall>res tr'. recursive_dns_lookup W t q (pre @ s1 # mid @ s2 # rest) tr = Some (res, tr')
           \<longrightarrow> (\<exists>later. tr' = tr2 @ [Send dq s2,
                                      Call (Str (butlast (rd_str (last recs)))) q
                                        (ip_addresses (additional r2))] @ later))"
proof -
  let ?n = "Str (butlast (rd_str (last recs)))"
  let ?glue = "ip_addresses (additional r2)"
  let ?servers = "pre @ s1 # mid @ s2 # rest"
  have loop: "server_loop W dq q t ?servers (tr @ [Call t q ?servers, Build t q]) =
          (Recurse ?n ?glue, tr2 @ [Send dq s2])"
    using assms(2) server_loop_clobber [OF assms(3-6)] assms(7)
      server_loop_referral [OF assms(8-10)]
    by (simp add: server_loop_append)
  with assms(1) have eq: "recursive_dns_lookup W t q ?servers tr =
      recursive_dns_lookup W ?n q ?glue (tr2 @ [Send dq s2])"
    by (intro recursive_dns_lookup_Recurse) simp_all
  have enter: "recursive_dns_lookup W t q ?servers tr =
           (if ?glue = [] then Some (Inr None, tr2 @ [Send dq s2, Call ?n q ?glue])
            else
              (case make_query W ?n q of
                 Inl e \<Rightarrow> Some (Inl e, tr2 @ [Send dq s2, Call ?n q ?glue, Build ?n q])
               | Inr dq' \<Rightarrow>
                   after_loop W q
                     (server_loop W dq' q ?n ?glue
                        (tr2 @ [Send dq s2, Call ?n q ?glue, Build ?n q]))))"
    unfolding eq
    by (subst recursive_dns_lookup_enter) (simp split: sum.splits)
  have tr: "\<forall>res tr'. recursive_dns_lookup W t q ?servers tr = Some (res, tr') \<longrightarrow>
           (\<exists>later. tr' = tr2 @ [Send dq s2, Call ?n q ?glue] @ later)"
    unfolding eq using recursive_dns_lookup_trace by fastforce
  from loop eq enter tr show ?thesis by blast
qed

text \<open>
  Four servers in the world of the example: the first and the third do not answer, the
  second answers the AAAA query with the A record, the fourth refers.
\<close>

lemma clobber_example:
  "make_query world_clobber (Name ''example.com.'') 28 = Inr (Query ''example.com.'' 28)"
  "server_loop world_clobber (Query ''example.com.'' 28) 28 (Name ''example.com.'')
     [''192.0.2.9'']
     ([] @ [Call (Name ''example.com.'') 28
              ([''192.0.2.9''] @ ''192.0.2.1'' # [''192.0.2.8''] @ ''192.0.2.2'' # []),
            Build (Name ''example.com.'') 28]) =
   (Fell (Name ''example.com.''),
    [Call (Name ''example.com.'') 28 [''192.0.2.9'', ''192.0.2.1'', ''192.0.2.8'', ''192.0.2.2''],
     Build (Name ''example.com.'') 28,
     Send (Query ''example.com.'' 28) ''192.0.2.9''])"
  "udp world_clobber
     [Call (Name ''example.com.'') 28 [''192.0.2.9'', ''192.0.2.1'', ''192.0.2.8'', ''192.0.2.2''],
      Build (Name ''example.com.'') 28,
      Send (Query ''example.com.'' 28) ''192.0.2.9'']
     (Query ''example.com.'' 28) ''192.0.2.1'' = Inr a_answer"
  "[rd 1 ''93.184.216.34''] = concat (map items (answer a_answer))"
  "[rd 1 ''93.184.216.34''] \<noteq> []"
  "\<forall>x \<in> set [rd 1 ''93.184.216.34'']. rdtype x \<noteq> 28 \<and> rdtype x \<noteq> 5"
  "server_loop world_clobber (Query ''example.com.'' 28) 28
     (Str (butlast (rd_str (last [rd 1 ''93.184.216.34''])))) [''192.0.2.8'']
     ([Call (Name ''example.com.'') 28 [''192.0.2.9'', ''192.0.2.1'', ''192.0.2.8'', ''192.0.2.2''],
       Build (Name ''example.com.'') 28,
       Send (Query ''example.com.'' 28) ''192.0.2.9''] @
      [Send (Query ''example.com.'' 28) ''192.0.2.1'']) =
   (Fell (Str (butlast (rd_str (last [rd 1 ''93.184.216.34''])))),
    [Call (Name ''example.com.'') 28 [''192.0.2.9'', ''192.0.2.1'', ''192.0.2.8'', ''192.0.2.2''],
     Build (Name ''example.com.'') 28,
     Send (Query ''example.com.'' 28) ''192.0.2.9'',
     Send (Query ''example.com.'' 28) ''192.0.2.1'',
     Send (Query ''example.com.'' 28) ''192.0.2.8''])"
  "udp world_clobber
     [Call (Name ''example.com.'') 28 [''192.0.2.9'', ''192.0.2.1'', ''192.0.2.8'', ''192.0.2.2''],
      Build (Name ''example.com.'') 28,
      Send (Query ''example.com.'' 28) ''192.0.2.9'',
      Send (Query ''example.com.'' 28) ''192.0.2.1'',
      Send (Query ''example.com.'' 28) ''192.0.2.8'']
     (Query ''example.com.'' 28) ''192.0.2.2'' = Inr glue_referral"
  "answer glue_referral = []"
  "additional glue_referral \<noteq> []"
  by (simp_all add: world_clobber_def a_answer_def glue_referral_def rd_def)

text \<open>The call for the overwritten name: the glue address does not answer.\<close>

lemma clobber_nested_run:
  "recursive_dns_lookup world_clobber (Str ''93.184.216.3'') 28 [''192.5.6.30''] tr =
     Some (Inr None,
           tr @ [Call (Str ''93.184.216.3'') 28 [''192.5.6.30''],
                 Build (Str ''93.184.216.3'') 28,
                 Send (Query ''93.184.216.3.'' 28) ''192.5.6.30''])"
  by (subst recursive_dns_lookup.simps) (simp add: world_clobber_def dotted_def)

theorem C9_witness:
  "recursive_dns_lookup world_clobber (Name ''example.com.'') 28
     [''192.0.2.9'', ''192.0.2.1'', ''192.0.2.8'', ''192.0.2.2''] [] =
   Some (Inr None,
     [Call (Name ''example.com.'') 28 [''192.0.2.9'', ''192.0.2.1'', ''192.0.2.8'', ''192.0.2.2''],
      Build (Name ''example.com.'') 28,
      Send (Query ''example.com.'' 28) ''192.0.2.9'',
      Send (Query ''example.com.'' 28) ''192.0.2.1'',
      Send (Query ''example.com.'' 28) ''192.0.2.8'',
      Send (Query ''example.com.'' 28) ''192.0.2.2'',
      Call (Str ''93.184.216.3'') 28 [''192.5.6.30''],
      Build (Str ''93.184.216.3'') 28,
      Send (Query ''93.184.216.3.'' 28) ''192.5.6.30''])"
proof -
  have name: "Str (butlast (rd_str (last [rd 1 ''93.184.216.34'']))) = Str ''93.184.216.3''"
    by (simp add: rd_def)
  have servers: "[''192.0.2.9'', ''192.0.2.1'', ''192.0.2.8'', ''192.0.2.2''] =
      [''192.0.2.9''] @ ''192.0.2.1'' # [''192.0.2.8''] @ ''192.0.2.2'' # []"
    by simp
  show ?thesis
    unfolding servers
    unfolding C9_query_name_is_overwritten [OF clobber_example, THEN conjunct2, THEN conjunct1] name
      glue_of_glue_referral clobber_nested_run
    by simp
qed

text \<open>
  When the servers before \<open>s\<close> have left \<^verbatim>\<open>target_name\<close> as it was passed in (each
  timed out or answered with both sections empty), a referral of \<open>s\<close> makes the call
  equal to the call with the same name, the same type and the extracted addresses.
\<close>

lemma referral_with_the_name_passed_in:
  assumes "make_query W t q = Inr dq"
    and "server_loop W dq q t pre (tr @ [Call t q (pre @ s # rest), Build t q]) = (Fell t, tr1)"
    and "udp W tr1 dq s = Inr r" and "answer r = []" and "additional r \<noteq> []"
  shows "recursive_dns_lookup W t q (pre @ s # rest) tr =
           recursive_dns_lookup W t q (ip_addresses (additional r)) (tr1 @ [Send dq s])"
proof -
  have "server_loop W dq q t (pre @ s # rest) (tr @ [Call t q (pre @ s # rest), Build t q]) =
          (Recurse t (ip_addresses (additional r)), tr1 @ [Send dq s])"
    using assms(2) server_loop_referral [OF assms(3-5)]
    by (simp add: server_loop_append)
  with assms(1) show ?thesis
    by (intro recursive_dns_lookup_Recurse) simp_all
qed

text \<open>
  C4 holds in the case of the lemma above and fails after the scan of C9 has
  overwritten \<^verbatim>\<open>target_name\<close>. The AAAA records of
  \<^verbatim>\<open>example.com.\<close> are asked of two servers: the first answers with the A record of the
  name, the second with a referral. The recursive call is made with the name
  \<^verbatim>\<open>93.184.216.3\<close> and the glue address; its query is built and sent for that name.
\<close>

theorem C4_referral_after_scan:
  "recursive_dns_lookup world_clobber (Name ''example.com.'') 28
     [''192.0.2.1'', ''192.0.2.2''] [] =
   Some (Inr None,
     [Call (Name ''example.com.'') 28 [''192.0.2.1'', ''192.0.2.2''],
      Build (Name ''example.com.'') 28,
      Send (Query ''example.com.'' 28) ''192.0.2.1'',
      Send (Query ''example.com.'' 28) ''192.0.2.2'',
      Call (Str ''93.184.216.3'') 28 [''192.5.6.30''],
      Build (Str ''93.184.216.3'') 28,
      Send (Query ''93.184.216.3.'' 28) ''192.5.6.30''])"
proof -
  have loop: "server_loop world_clobber (Query ''example.com.'' 28) 28 (Name ''example.com.'')
      [''192.0.2.1'', ''192.0.2.2'']
      ([] @ [Call (Name ''example.com.'') 28 [''192.0.2.1'', ''192.0.2.2''],
             Build (Name ''example.com.'') 28]) =
     (Recurse (Str ''93.184.216.3'') [''192.5.6.30''],
      [Call (Name ''example.com.'') 28 [''192.0.2.1'', ''192.0.2.2''],
       Build (Name ''example.com.'') 28,
       Send (Query ''example.com.'' 28) ''192.0.2.1'',
       Send (Query ''example.com.'' 28) ''192.0.2.2''])"
  proof -
    have fields: "answer glue_referral = []" "additional glue_referral \<noteq> []"
      "answer a_answer \<noteq> []"
      "scan_answer 28 (Name ''example.com.'') (answer a_answer) = NoMatch (Str ''93.184.216.3'')"
      by (simp_all add: a_answer_def glue_referral_def rd_def)
    show ?thesis
      by (simp add: world_clobber_def fields glue_of_glue_referral)
  qed
  have nested: "recursive_dns_lookup world_clobber (Str ''93.184.216.3'') 28 [''192.5.6.30'']
      [Call (Name ''example.com.'') 28 [''192.0.2.1'', ''192.0.2.2''],
       Build (Name ''example.com.'') 28,
       Send (Query ''example.com.'' 28) ''192.0.2.1'',
       Send (Query ''example.com.'' 28) ''192.0.2.2''] =
     Some (Inr None,
      [Call (Name ''example.com.'') 28 [''192.0.2.1'', ''192.0.2.2''],
       Build (Name ''example.com.'') 28,
       Send (Query ''example.com.'' 28) ''192.0.2.1'',
       Send (Query ''example.com.'' 28) ''192.0.2.2'',
       Call (Str ''93.184.216.3'') 28 [''192.5.6.30''],
       Build (Str ''93.184.216.3'') 28,
       Send (Query ''93.184.216.3.'' 28) ''192.5.6.30''])"
    by (subst recursive_dns_lookup.simps) (simp add: world_clobber_def dotted_def)
  show ?thesis
    by (subst recursive_dns_lookup_Recurse [OF _ _ loop]) (simp_all add: nested)
qed

subsection \<open>C5: exceptions of the transport call\<close>

text \<open>
  C5, as stated, fails. The datagram of the first server does not parse, and
  \<^verbatim>\<open>dns.query.udp\<close> raises a form error. The \<^verbatim>\<open>except\<close> clause names the timeout only, so
  the error leaves the resolver and reaches the caller; the second server, which would
  have answered, is never asked. Had the first server timed out, the resolver would
  have gone on to the second one and returned its answer.
\<close>

theorem C5_counterexample:
  "recursive_dns_lookup world_malformed (Name ''example.com.'') 1
     [''192.0.2.1'', ''192.0.2.2''] [] =
   Some (Inl FormError,
     [Call (Name ''example.com.'') 1 [''192.0.2.1'', ''192.0.2.2''],
      Build (Name ''example.com.'') 1,
      Send (Query ''example.com.'' 1) ''192.0.2.1''])
   \<and> recursive_dns_lookup world_first_silent (Name ''example.com.'') 1
     [''192.0.2.1'', ''192.0.2.2''] [] =
   Some (Inr (Some a_answer),
     [Call (Name ''example.com.'') 1 [''192.0.2.1'', ''192.0.2.2''],
      Build (Name ''example.com.'') 1,
      Send (Query ''example.com.'' 1) ''192.0.2.1'',
      Send (Query ''example.com.'' 1) ''192.0.2.2''])"
proof (rule conjI)
  show "recursive_dns_lookup world_malformed (Name ''example.com.'') 1
     [''192.0.2.1'', ''192.0.2.2''] [] =
   Some (Inl FormError,
     [Call (Name ''example.com.'') 1 [''192.0.2.1'', ''192.0.2.2''],
      Build (Name ''example.com.'') 1,
      Send (Query ''example.com.'' 1) ''192.0.2.1''])"
    by (subst recursive_dns_lookup.simps) (simp add: world_malformed_def)
  have fields: "answer a_answer \<noteq> []"
    "scan_answer (Suc 0) (Name ''example.com.'') (answer a_answer) = Found"
    by (simp_all add: a_answer_def rd_def)
  show "recursive_dns_lookup world_first_silent (Name ''example.com.'') 1
     [''192.0.2.1'', ''192.0.2.2''] [] =
   Some (Inr (Some a_answer),
     [Call (Name ''example.com.'') 1 [''192.0.2.1'', ''192.0.2.2''],
      Build (Name ''example.com.'') 1,
      Send (Query ''example.com.'' 1) ''192.0.2.1'',
      Send (Query ''example.com.'' 1) ''192.0.2.2''])"
    by (subst recursive_dns_lookup.simps) (simp add: world_first_silent_def fields)
qed

text \<open>
  C5, amended. The servers before \<open>s\<close> have been tried and the loop has moved on, and
  the transport call for \<open>s\<close> raises \<open>e\<close>. If \<open>e\<close> is the timeout, the loop goes on with
  the servers after \<open>s\<close>, and the call returns what comes of them. Any other exception,
  such as the one for a response that cannot be decoded, ends the call and is raised to
  the caller, and the servers after \<open>s\<close> are not tried.
\<close>

theorem C5_only_timeout_is_recovered:
  assumes "make_query W t q = Inr dq"
    and "server_loop W dq q t pre (tr @ [Call t q (pre @ s # rest), Build t q]) = (Fell t1, tr1)"
    and "udp W tr1 dq s = Inl e"
  shows "recursive_dns_lookup W t q (pre @ s # rest) tr =
     (if e = Timeout then after_loop W q (server_loop W dq q t1 rest (tr1 @ [Send dq s]))
      else Some (Inl e, tr1 @ [Send dq s]))"
proof -
  have "server_loop W dq q t (pre @ s # rest) (tr @ [Call t q (pre @ s # rest), Build t q]) =
          (if e = Timeout then server_loop W dq q t1 rest (tr1 @ [Send dq s])
           else (Raise e, tr1 @ [Send dq s]))"
    using assms(2,3) by (simp add: server_loop_append)
  with assms(1) show ?thesis
    by (simp add: recursive_dns_lookup_unfold [where dq = dq] after_loop_def)
qed

lemma malformed_example:
  "make_query world_malformed (Name ''example.com.'') 1 = Inr (Query ''example.com.'' 1)"
  "server_loop world_malformed (Query ''example.com.'' 1) 1 (Name ''example.com.'') []
     ([] @ [Call (Name ''example.com.'') 1 ([] @ ''192.0.2.1'' # [''192.0.2.2'']),
            Build (Name ''example.com.'') 1]) =
   (Fell (Name ''example.com.''),
    [Call (Name ''example.com.'') 1 [''192.0.2.1'', ''192.0.2.2''],
     Build (Name ''example.com.'') 1])"
  "udp world_malformed
     [Call (Name ''example.com.'') 1 [''192.0.2.1'', ''192.0.2.2''],
      Build (Name ''example.com.'') 1] (Query ''example.com.'' 1) ''192.0.2.1'' = Inl FormError"
  by (simp_all add: world_malformed_def)

theorem C5_witness:
  "udp world_malformed
     [Call (Name ''example.com.'') 1 [''192.0.2.1'', ''192.0.2.2''],
      Build (Name ''example.com.'') 1] (Query ''example.com.'' 1) ''192.0.2.1'' = Inl FormError
   \<and> recursive_dns_lookup world_malformed (Name ''example.com.'') 1
        ([] @ ''192.0.2.1'' # [''192.0.2.2'']) [] =
      Some (Inl FormError,
        [Call (Name ''example.com.'') 1 [''192.0.2.1'', ''192.0.2.2''],
         Build (Name ''example.com.'') 1,
         Send (Query ''example.com.'' 1) ''192.0.2.1''])"
  using C5_only_timeout_is_recovered [OF malformed_example] malformed_example(3)
  by simp

subsection \<open>C7: the empty server list\<close>

text \<open>
  C7. With an empty server list the resolver returns \<^verbatim>\<open>None\<close> (NotFound) at once, for
  every name and every type, in every world: the only event is the call itself, so no
  query is built and nothing is sent, also for a name on which building the query would
  raise.
\<close>

theorem C7_empty_server_list:
  "recursive_dns_lookup W target_name qtype [] tr =
     Some (Inr None, tr @ [Call target_name qtype []])
   \<and> sends (tr @ [Call target_name qtype []]) = sends tr
   \<and> builds (tr @ [Call target_name qtype []]) = builds tr"
  by (simp add: recursive_dns_lookup_Nil sends_append builds_append)

subsection \<open>C10: glue extraction\<close>

text \<open>
  C10. The address list is the concatenation, over the record sets of the additional
  section, of the last token of the text of the record set, repeated once for every
  token of that text that is equal to \<^verbatim>\<open>A\<close>. Consequently, for a record set whose
  text has for each of its records the five tokens owner, TTL, class, type and address
  (none of the others being \<^verbatim>\<open>A\<close>): with the type \<^verbatim>\<open>A\<close> it gives the last address
  once per record and no other address; with the type \<^verbatim>\<open>AAAA\<close> it gives nothing. And
  any record set whose text has a token \<^verbatim>\<open>A\<close> gives the last token of its text,
  whatever that token is.
\<close>

theorem C10_glue_extraction:
  "ip_addresses additional_section =
     concat (map (\<lambda>rs. replicate (count_list (split (rrset_str rs)) ''A'')
                          (last (split (rrset_str rs)))) additional_section)
   \<and> (owner \<noteq> ''A'' \<and> ttl \<noteq> ''A'' \<and> cls \<noteq> ''A'' \<and> (\<forall>d \<in> set addrs. d \<noteq> ''A'') \<and> addrs \<noteq> []
        \<longrightarrow>
        (split (rrset_str rs) = concat (map (\<lambda>d. [owner, ttl, cls, ''A'', d]) addrs)
           \<longrightarrow> ip_addresses [rs] = replicate (length addrs) (last addrs))
        \<and> (split (rrset_str rs) = concat (map (\<lambda>d. [owner, ttl, cls, ''AAAA'', d]) addrs)
           \<longrightarrow> ip_addresses [rs] = []))
   \<and> (''A'' \<in> set (split (rrset_str rs)) \<longrightarrow>
        ip_addresses [rs] \<noteq> [] \<and> set (ip_addresses [rs]) = {last (split (rrset_str rs))})"
proof (intro conjI impI)
  show "ip_addresses additional_section =
     concat (map (\<lambda>rs. replicate (count_list (split (rrset_str rs)) ''A'')
                          (last (split (rrset_str rs)))) additional_section)"
    by (rule ip_addresses_concat)
next
  assume ok: "owner \<noteq> ''A'' \<and> ttl \<noteq> ''A'' \<and> cls \<noteq> ''A'' \<and> (\<forall>d \<in> set addrs. d \<noteq> ''A'') \<and> addrs \<noteq> []"
    and toks: "split (rrset_str rs) = concat (map (\<lambda>d. [owner, ttl, cls, ''A'', d]) addrs)"
  from ok have "ip_addresses [rs] =
      (if ''A'' = ''A'' then replicate (length addrs) (last addrs) else [])"
    by (intro glue_of_rr_tokens [OF _ _ _ _ _ toks]) simp_all
  then show "ip_addresses [rs] = replicate (length addrs) (last addrs)" by simp
next
  assume ok: "owner \<noteq> ''A'' \<and> ttl \<noteq> ''A'' \<and> cls \<noteq> ''A'' \<and> (\<forall>d \<in> set addrs. d \<noteq> ''A'') \<and> addrs \<noteq> []"
    and toks: "split (rrset_str rs) = concat (map (\<lambda>d. [owner, ttl, cls, ''AAAA'', d]) addrs)"
  from ok have "ip_addresses [rs] =
      (if ''AAAA'' = ''A'' then replicate (length addrs) (last addrs) else [])"
    by (intro glue_of_rr_tokens [OF _ _ _ _ _ toks]) simp_all
  then show "ip_addresses [rs] = []" by simp
next
  assume "''A'' \<in> set (split (rrset_str rs))"
  then show "ip_addresses [rs] \<noteq> []" using glue_of_A_token by blast
next
  assume "''A'' \<in> set (split (rrset_str rs))"
  then show "set (ip_addresses [rs]) = {last (split (rrset_str rs))}"
    using glue_of_A_token by blast
qed

text \<open>
  The three record sets of the examples: two address records of one name server, an
  IPv6 address record, and a signature whose last token is a piece of the signature.
\<close>

theorem C10_witness:
  "ip_addresses [two_a_rrset] = [''192.0.2.2'', ''192.0.2.2'']
   \<and> ip_addresses [aaaa_rrset] = []
   \<and> ''A'' \<in> set (split (rrset_str rrsig_rrset))
   \<and> set (ip_addresses [rrsig_rrset]) = {''c2lnbmF0dXJl''}"
proof (intro conjI)
  show "ip_addresses [two_a_rrset] = [''192.0.2.2'', ''192.0.2.2'']"
    using C10_glue_extraction [of "[]" "''ns1.example.com.''" "''3600''" "''IN''"
        "[''192.0.2.1'', ''192.0.2.2'']" two_a_rrset]
    by (simp add: split_two_a)
  show "ip_addresses [aaaa_rrset] = []"
    using C10_glue_extraction [of "[]" "''a.gtld-servers.net.''" "''172800''" "''IN''"
        "[''2001:503:a83e::2:30'']" aaaa_rrset]
    by (simp add: split_aaaa)
  show a: "''A'' \<in> set (split (rrset_str rrsig_rrset))"
    by (simp add: split_rrsig)
  show "set (ip_addresses [rrsig_rrset]) = {''c2lnbmF0dXJl''}"
    using C10_glue_extraction [of "[]" "''x''" "''x''" "''x''" "[]" rrsig_rrset] a
    by (simp add: split_rrsig)
qed

subsection \<open>C2 and C8: the collected result\<close>

text \<open>
  The lists for A, AAAA and MX hold records of the type code 1, 28 and 15 only, each
  with the owner name of its record set. The CNAME list has one entry for every record
  of the answer section, of whatever type.
\<close>

lemma arecords_exact:
  "AddressEntry n a \<in> set (arecords (Some r)) \<longleftrightarrow>
     (\<exists>rs \<in> set (answer r). \<exists>x \<in> set (items rs). rdtype x = 1 \<and> n = name rs \<and> a = rd_str x)"
  by (auto simp: arecords_def)

lemma aaaarecords_exact:
  "AddressEntry n a \<in> set (aaaarecords (Some r)) \<longleftrightarrow>
     (\<exists>rs \<in> set (answer r). \<exists>x \<in> set (items rs). rdtype x = 28 \<and> n = name rs \<and> a = rd_str x)"
  by (auto simp: aaaarecords_def)

lemma mxrecords_exact:
  "MxEntry n p e \<in> set (mxrecords (Some r)) \<longleftrightarrow>
     (\<exists>rs \<in> set (answer r). \<exists>x \<in> set (items rs).
        rdtype x = 15 \<and> n = name rs \<and> p = preference x \<and> e = exchange x)"
  by (auto simp: mxrecords_def)

lemma cnames_unfiltered:
  "cnames nm (Some r) = map (\<lambda>x. CnameEntry x nm) (concat (map items (answer r)))"
  by (simp add: cnames_def map_concat comp_def)

text \<open>
  C2 holds for the A, AAAA and MX lists and fails for the CNAME list, which is built
  without the test of the type code that the three other loops make. A server answers
  the CNAME query with the alias and, in the same answer section, the address record
  of the target. The CNAME list of the result then has an entry for the address
  record, whose type code is 1.
\<close>

theorem C2_cname_list_is_not_filtered:
  "collect_results world_cname_extra ''www.example.com'' [] =
     Some (Inr (Map.empty(
             ''CNAME'' \<mapsto> [CnameEntry (rd 5 ''example.net.'') ''www.example.com'',
                          CnameEntry (rd 1 ''93.184.216.34'') ''www.example.com''],
             ''A'' \<mapsto> [], ''AAAA'' \<mapsto> [], ''MX'' \<mapsto> [])),
           [Call (Name ''www.example.com.'') 5 ROOT_SERVERS,
            Build (Name ''www.example.com.'') 5,
            Send (Query ''www.example.com.'' 5) ''198.41.0.4''] @
           silent_trace ''www.example.com.'' 1 @ silent_trace ''www.example.com.'' 28 @
           silent_trace ''www.example.com.'' 15)
   \<and> rdtype (rd 1 ''93.184.216.34'') = 1"
proof (rule conjI)
  let ?n = "''www.example.com.''"
  let ?tr5 = "[Call (Name ?n) 5 ROOT_SERVERS, Build (Name ?n) 5, Send (Query ?n 5) ''198.41.0.4'']"
  have name: "from_text world_cname_extra ''www.example.com'' = Inr ?n"
    by (simp add: world_cname_extra_def dotted_def)
  have fields: "answer cname_with_address \<noteq> []"
    "scan_answer 5 (Name ?n) (answer cname_with_address) = Found"
    by (simp_all add: cname_with_address_def rd_def)
  have "server_loop world_cname_extra (Query ?n 5) 5 (Name ?n) ROOT_SERVERS
          ([] @ [Call (Name ?n) 5 ROOT_SERVERS, Build (Name ?n) 5]) =
        (Answered cname_with_address, ?tr5)"
  proof -
    obtain others where roots: "ROOT_SERVERS = ''198.41.0.4'' # others"
      by (simp add: ROOT_SERVERS_def)
    show ?thesis
      unfolding roots by (simp add: world_cname_extra_def fields)
  qed
  then have l5: "lookup world_cname_extra (Name ?n) 5 [] = Some (Inr (Some cname_with_address), ?tr5)"
    unfolding lookup_def
    by (intro recursive_dns_lookup_Answered [where dq = "Query ?n 5"])
       (simp_all add: ROOT_SERVERS_not_Nil)
  have quiet: "\<And>q tr s. q \<noteq> 5 \<Longrightarrow> udp world_cname_extra tr (Query ?n q) s = Inl Timeout"
    by (simp add: world_cname_extra_def)
  have "collect_results world_cname_extra ''www.example.com'' [] =
     Some (Inr (Map.empty(''CNAME'' \<mapsto> cnames ''www.example.com'' (Some cname_with_address),
                          ''A'' \<mapsto> arecords None, ''AAAA'' \<mapsto> aaaarecords None,
                          ''MX'' \<mapsto> mxrecords None)),
           ((?tr5 @ silent_trace ?n 1) @ silent_trace ?n 28) @ silent_trace ?n 15)"
    by (rule collect_results_returns [OF name l5]) (rule lookup_all_timeout, rule quiet, simp)+
  then show "collect_results world_cname_extra ''www.example.com'' [] =
     Some (Inr (Map.empty(
             ''CNAME'' \<mapsto> [CnameEntry (rd 5 ''example.net.'') ''www.example.com'',
                          CnameEntry (rd 1 ''93.184.216.34'') ''www.example.com''],
             ''A'' \<mapsto> [], ''AAAA'' \<mapsto> [], ''MX'' \<mapsto> [])),
           ?tr5 @ silent_trace ?n 1 @ silent_trace ?n 28 @ silent_trace ?n 15)"
    by (simp add: reshape_None cnames_def cname_with_address_def)
  show "rdtype (rd 1 ''93.184.216.34'') = 1" by (simp add: rd_def)
qed

text \<open>
  C8, as stated for every input name, fails: \<open>collect_results\<close> catches nothing. A
  name with an empty label does not parse, and the exception of the parser ends the
  call before any lookup. A malformed datagram from the first root server raises in
  the first lookup, and the call ends with that exception. In both cases there is no
  dictionary.
\<close>

theorem C8_counterexample:
  "collect_results world_strict ''a..b'' [] = Some (Inl NameSyntax, [])
   \<and> collect_results world_garbled ''example.com'' [] =
       Some (Inl FormError,
             [Call (Name ''example.com.'') 5 ROOT_SERVERS,
              Build (Name ''example.com.'') 5,
              Send (Query ''example.com.'' 5) ''198.41.0.4''])"
proof (rule conjI)
  show "collect_results world_strict ''a..b'' [] = Some (Inl NameSyntax, [])"
    by (rule collect_results_raises) (simp add: world_strict_def)
  obtain others where roots: "ROOT_SERVERS = ''198.41.0.4'' # others"
    by (simp add: ROOT_SERVERS_def)
  have "server_loop world_garbled (Query ''example.com.'' 5) 5 (Name ''example.com.'')
          ROOT_SERVERS
          ([] @ [Call (Name ''example.com.'') 5 ROOT_SERVERS, Build (Name ''example.com.'') 5]) =
        (Raise FormError,
         [Call (Name ''example.com.'') 5 ROOT_SERVERS, Build (Name ''example.com.'') 5,
          Send (Query ''example.com.'' 5) ''198.41.0.4''])"
    unfolding roots by (simp add: world_garbled_def)
  then have "lookup world_garbled (Name ''example.com.'') 5 [] =
      Some (Inl FormError,
         [Call (Name ''example.com.'') 5 ROOT_SERVERS, Build (Name ''example.com.'') 5,
          Send (Query ''example.com.'' 5) ''198.41.0.4''])"
    unfolding lookup_def
    by (intro recursive_dns_lookup_Raise [where dq = "Query ''example.com.'' 5"])
       (simp_all add: ROOT_SERVERS_not_Nil)
  then show "collect_results world_garbled ''example.com'' [] =
       Some (Inl FormError,
             [Call (Name ''example.com.'') 5 ROOT_SERVERS,
              Build (Name ''example.com.'') 5,
              Send (Query ''example.com.'' 5) ''198.41.0.4''])"
    by (simp add: collect_results_def and_then_def world_garbled_def dotted_def)
qed

text \<open>
  C8, amended. When the name parses and each of the four lookups returns, with a
  response or with \<^verbatim>\<open>None\<close>, \<open>collect_results\<close> returns a dictionary whose keys are
  exactly \<^verbatim>\<open>CNAME\<close>, \<^verbatim>\<open>A\<close>, \<^verbatim>\<open>AAAA\<close> and \<^verbatim>\<open>MX\<close>. Each key holds the list made from
  the response of its lookup, and the empty list when that lookup returned \<^verbatim>\<open>None\<close>
  (NotFound), which is not an error of the collection.
\<close>

theorem C8_four_keys:
  assumes "from_text W nm = Inr n"
    and "lookup W (Name n) 5 tr = Some (Inr r1, tr1)"
    and "lookup W (Name n) 1 tr1 = Some (Inr r2, tr2)"
    and "lookup W (Name n) 28 tr2 = Some (Inr r3, tr3)"
    and "lookup W (Name n) 15 tr3 = Some (Inr r4, tr4)"
  shows "\<exists>full_response.
     collect_results W nm tr = Some (Inr full_response, tr4)
     \<and> dom full_response = {''CNAME'', ''A'', ''AAAA'', ''MX''}
     \<and> full_response ''CNAME'' = Some (cnames nm r1)
     \<and> full_response ''A'' = Some (arecords r2)
     \<and> full_response ''AAAA'' = Some (aaaarecords r3)
     \<and> full_response ''MX'' = Some (mxrecords r4)
     \<and> (r1 = None \<longrightarrow> full_response ''CNAME'' = Some [])
     \<and> (r2 = None \<longrightarrow> full_response ''A'' = Some [])
     \<and> (r3 = None \<longrightarrow> full_response ''AAAA'' = Some [])
     \<and> (r4 = None \<longrightarrow> full_response ''MX'' = Some [])"
proof -
  let ?d = "Map.empty(''CNAME'' \<mapsto> cnames nm r1, ''A'' \<mapsto> arecords r2,
                      ''AAAA'' \<mapsto> aaaarecords r3, ''MX'' \<mapsto> mxrecords r4)"
  have ret: "collect_results W nm tr = Some (Inr ?d, tr4)"
    by (rule collect_results_returns [OF assms])
  have keys: "dom ?d = {''CNAME'', ''A'', ''AAAA'', ''MX''}"
    by (rule collect_results_keys [OF ret])
  show ?thesis
    by (rule exI [of _ ?d]) (use ret keys reshape_None in simp)
qed

lemma silent_example:
  "from_text silent ''example.com'' = Inr ''example.com.''"
  "lookup silent (Name ''example.com.'') 5 [] = Some (Inr None, silent_trace ''example.com.'' 5)"
  "lookup silent (Name ''example.com.'') 1 (silent_trace ''example.com.'' 5) =
     Some (Inr None, silent_trace ''example.com.'' 5 @ silent_trace ''example.com.'' 1)"
  "lookup silent (Name ''example.com.'') 28
       (silent_trace ''example.com.'' 5 @ silent_trace ''example.com.'' 1) =
     Some (Inr None, silent_trace ''example.com.'' 5 @ silent_trace ''example.com.'' 1 @
                     silent_trace ''example.com.'' 28)"
  "lookup silent (Name ''example.com.'') 15
       (silent_trace ''example.com.'' 5 @ silent_trace ''example.com.'' 1 @
        silent_trace ''example.com.'' 28) =
     Some (Inr None, silent_collect_trace ''example.com.'')"
proof -
  have udp: "\<And>tr q s. udp silent tr q s = Inl Timeout" by (simp add: silent_def)
  show "from_text silent ''example.com'' = Inr ''example.com.''"
    by (simp add: silent_def dotted_def)
  show "lookup silent (Name ''example.com.'') 5 [] = Some (Inr None, silent_trace ''example.com.'' 5)"
    using lookup_all_timeout [OF udp, of "''example.com.''" 5 "[]"] by simp
  show "lookup silent (Name ''example.com.'') 1 (silent_trace ''example.com.'' 5) =
     Some (Inr None, silent_trace ''example.com.'' 5 @ silent_trace ''example.com.'' 1)"
    by (rule lookup_all_timeout [OF udp])
  show "lookup silent (Name ''example.com.'') 28
       (silent_trace ''example.com.'' 5 @ silent_trace ''example.com.'' 1) =
     Some (Inr None, silent_trace ''example.com.'' 5 @ silent_trace ''example.com.'' 1 @
                     silent_trace ''example.com.'' 28)"
    using lookup_all_timeout [OF udp, of "''example.com.''" 28
        "silent_trace ''example.com.'' 5 @ silent_trace ''example.com.'' 1"] by simp
  show "lookup silent (Name ''example.com.'') 15
       (silent_trace ''example.com.'' 5 @ silent_trace ''example.com.'' 1 @
        silent_trace ''example.com.'' 28) =
     Some (Inr None, silent_collect_trace ''example.com.'')"
    using lookup_all_timeout [OF udp, of "''example.com.''" 15
        "silent_trace ''example.com.'' 5 @ silent_trace ''example.com.'' 1 @
         silent_trace ''example.com.'' 28"] by (simp add: silent_collect_trace_def)
qed

theorem C8_witness:
  "\<exists>full_response.
     collect_results silent ''example.com'' [] =
       Some (Inr full_response, silent_collect_trace ''example.com.'')
     \<and> dom full_response = {''CNAME'', ''A'', ''AAAA'', ''MX''}
     \<and> full_response ''CNAME'' = Some []
     \<and> full_response ''A'' = Some []
     \<and> full_response ''AAAA'' = Some []
     \<and> full_response ''MX'' = Some []"
  using C8_four_keys [OF silent_example] by auto

subsection \<open>C6: the cache of the command-line loop\<close>

text \<open>
  C6, as stated of \<open>collect_results\<close>, fails: the function does not look at the cache.
  Called a second time with the same string, in a world where nobody answers, it
  returns the same result and sends the 52 queries of its four lookups again.
\<close>

theorem C6_counterexample:
  "collect_results silent ''example.com'' [] =
     Some (Inr empty_results, silent_collect_trace ''example.com.'')
   \<and> collect_results silent ''example.com'' (silent_collect_trace ''example.com.'') =
     Some (Inr empty_results,
           silent_collect_trace ''example.com.'' @ silent_collect_trace ''example.com.'')
   \<and> length (sends (silent_collect_trace ''example.com.'')) = 52
   \<and> length (sends (silent_collect_trace ''example.com.'' @
                     silent_collect_trace ''example.com.'')) = 104"
proof (intro conjI)
  show "collect_results silent ''example.com'' [] =
     Some (Inr empty_results, silent_collect_trace ''example.com.'')"
    using collect_results_silent [of "[]"] by simp
  show "collect_results silent ''example.com'' (silent_collect_trace ''example.com.'') =
     Some (Inr empty_results,
           silent_collect_trace ''example.com.'' @ silent_collect_trace ''example.com.'')"
    by (rule collect_results_silent)
  show len: "length (sends (silent_collect_trace ''example.com.'')) = 52"
    by (simp add: silent_collect_trace_def sends_append sends_silent_trace ROOT_SERVERS_def)
  show "length (sends (silent_collect_trace ''example.com.'' @
                     silent_collect_trace ''example.com.'')) = 104"
    by (simp add: sends_append len)
qed

text \<open>
  C6, amended to the loop of \<^verbatim>\<open>main\<close>, which looks a name up in the cache before it
  calls \<open>collect_results\<close>. The loop has processed a name \<open>a\<close> and any names after it.
  If \<open>a\<close> was not in the cache, \<open>collect_results\<close> was called for \<open>a\<close> on the trace of
  that moment, and its result \<open>res\<close> was stored under \<open>a\<close> and printed, the trace
  becoming the one \<open>collect_results\<close> returned; if \<open>a\<close> was in the cache, \<open>res\<close> is the
  cached result, which was printed. Afterwards the cache holds \<open>res\<close> under \<open>a\<close>.
  Processing \<open>a\<close> once more prints \<open>res\<close> again and changes nothing else: the trace,
  and with it the set of queries sent, and the cache stay as they were. No later run
  of the loop changes the entry of \<open>a\<close>.
\<close>

theorem C6_second_lookup_is_served_from_cache:
  assumes "main_loop W (a # names) st = Some (None, st1)"
  shows "\<exists>res. CACHE_SYSTEM st1 a = Some res
           \<and> (case CACHE_SYSTEM st a of
                 Some cached \<Rightarrow>
                   res = cached \<and>
                   main_loop W names (st\<lparr>printed := printed st @ [res]\<rparr>) = Some (None, st1)
               | None \<Rightarrow>
                   (\<exists>tr1. collect_results W a (trace st) = Some (Inr res, tr1) \<and>
                      main_loop W names
                        (st\<lparr>CACHE_SYSTEM := (CACHE_SYSTEM st)(a \<mapsto> res), trace := tr1,
                            printed := printed st @ [res]\<rparr>) = Some (None, st1)))
           \<and> printed st1 ! length (printed st) = res
           \<and> main_loop W (a # names @ [a]) st =
               Some (None, st1\<lparr>printed := printed st1 @ [res]\<rparr>)
           \<and> (\<forall>later r st2. main_loop W later st1 = Some (r, st2) \<longrightarrow>
                 CACHE_SYSTEM st2 a = Some res)"
proof -
  from main_loop_first [OF assms] obtain res where
    res: "CACHE_SYSTEM st1 a = Some res" "printed st1 ! length (printed st) = res" by blast
  have first: "case CACHE_SYSTEM st a of
                 Some cached \<Rightarrow>
                   res = cached \<and>
                   main_loop W names (st\<lparr>printed := printed st @ [res]\<rparr>) = Some (None, st1)
               | None \<Rightarrow>
                   (\<exists>tr1. collect_results W a (trace st) = Some (Inr res, tr1) \<and>
                      main_loop W names
                        (st\<lparr>CACHE_SYSTEM := (CACHE_SYSTEM st)(a \<mapsto> res), trace := tr1,
                            printed := printed st @ [res]\<rparr>) = Some (None, st1))"
  proof (cases "CACHE_SYSTEM st a")
    case (Some cached)
    with assms have run: "main_loop W names (st\<lparr>printed := printed st @ [cached]\<rparr>) =
        Some (None, st1)" by simp
    from main_loop_keeps [OF run] Some have "CACHE_SYSTEM st1 a = Some cached" by simp
    with res(1) have "res = cached" by simp
    with Some run show ?thesis by simp
  next
    case None
    with assms obtain r0 tr1 where c: "collect_results W a (trace st) = Some (Inr r0, tr1)"
      by (auto split: option.splits sum.splits prod.splits)
    with None assms have run: "main_loop W names
        (st\<lparr>CACHE_SYSTEM := (CACHE_SYSTEM st)(a \<mapsto> r0), trace := tr1,
            printed := printed st @ [r0]\<rparr>) = Some (None, st1)" by simp
    from main_loop_keeps [OF run] have "CACHE_SYSTEM st1 a = Some r0" by simp
    with res(1) have "res = r0" by simp
    with None c run show ?thesis by simp
  qed
  have "main_loop W ((a # names) @ [a]) st = main_loop W [a] st1"
    using assms by (simp only: main_loop_append) simp
  also have "\<dots> = Some (None, st1\<lparr>printed := printed st1 @ [res]\<rparr>)"
    using res(1) by simp
  finally have again: "main_loop W (a # names @ [a]) st =
      Some (None, st1\<lparr>printed := printed st1 @ [res]\<rparr>)" by simp
  have kept: "\<forall>later r st2. main_loop W later st1 = Some (r, st2) \<longrightarrow>
      CACHE_SYSTEM st2 a = Some res"
    using main_loop_keeps res(1) by blast
  from res first again kept show ?thesis by blast
qed

lemma cname_extra_first_lookups:
  "main_loop world_cname_extra (''www.example.com'' # [''example.org'']) initial_state =
     Some (None, cname_extra_state)"
proof -
  have names: "dotted ''www.example.com'' = Inr ''www.example.com.''"
    "dotted ''example.org'' = Inr ''example.org.''"
    by (simp_all add: dotted_def)
  show ?thesis
    by (simp add: initial_state_def cname_extra_state_def
          collect_results_cname_extra [OF names(1)] collect_results_cname_extra [OF names(2)])
qed

theorem C6_witness:
  "main_loop world_cname_extra [''www.example.com'', ''example.org''] initial_state =
     Some (None, cname_extra_state)
   \<and> main_loop world_cname_extra [''www.example.com'', ''example.org'', ''www.example.com'']
       initial_state =
       Some (None, cname_extra_state
               \<lparr>printed := [cname_extra_results ''www.example.com'',
                            cname_extra_results ''example.org'',
                            cname_extra_results ''www.example.com'']\<rparr>)
   \<and> collect_results world_cname_extra ''www.example.com'' (trace initial_state) =
       Some (Inr (cname_extra_results ''www.example.com''),
             cname_extra_trace ''www.example.com.'')"
proof (intro conjI)
  show "main_loop world_cname_extra [''www.example.com'', ''example.org''] initial_state =
     Some (None, cname_extra_state)"
    by (rule cname_extra_first_lookups)
  from C6_second_lookup_is_served_from_cache [OF cname_extra_first_lookups] obtain res where
    res: "CACHE_SYSTEM cname_extra_state ''www.example.com'' = Some res"
    and again: "main_loop world_cname_extra
        (''www.example.com'' # [''example.org''] @ [''www.example.com'']) initial_state =
      Some (None, cname_extra_state\<lparr>printed := printed cname_extra_state @ [res]\<rparr>)"
    by blast
  from res have "res = cname_extra_results ''www.example.com''"
    by (simp add: cname_extra_state_def)
  with again show "main_loop world_cname_extra
      [''www.example.com'', ''example.org'', ''www.example.com''] initial_state =
       Some (None, cname_extra_state
               \<lparr>printed := [cname_extra_results ''www.example.com'',
                            cname_extra_results ''example.org'',
                            cname_extra_results ''www.example.com'']\<rparr>)"
    by (simp add: cname_extra_state_def)
  show "collect_results world_cname_extra ''www.example.com'' (trace initial_state) =
       Some (Inr (cname_extra_results ''www.example.com''),
             cname_extra_trace ''www.example.com.'')"
    using collect_results_cname_extra [of "''www.example.com''" "''www.example.com.''" "[]"]
    by (simp add: dotted_def initial_state_def)
qed

end
